theory Spec2Isabelle
  imports Complex_Main "HOL-Library.AList" "HOL-Library.Product_Lexorder"
begin

section \<open>Errors\<close>

text \<open>
  The exceptions the two modules raise.  \<open>ValueError\<close>, \<open>IndexError\<close> and \<open>TypeError\<close> are
  Python's own; \<open>Exception\<close> is the bare \<^verbatim>\<open>raise Exception(...)\<close> of the graph factories;
  \<open>OverflowError\<close> is what \<^verbatim>\<open>len\<close> raises on a \<^verbatim>\<open>range\<close> too long for a machine index.
\<close>

datatype error =
  ValueError string | IndexError | TypeError string | Exception string | OverflowError

definition not_graphical :: error where
  "not_graphical = ValueError ''Degree sequence is not graphical.''"

text \<open>Sequencing of fallible steps: the first raised error ends the computation.\<close>

definition then_e :: "error + 'a \<Rightarrow> ('a \<Rightarrow> error + 'b) \<Rightarrow> error + 'b" where
  "then_e m f = (case m of Inl e \<Rightarrow> Inl e | Inr x \<Rightarrow> f x)"

text \<open>A \<^verbatim>\<open>for\<close> loop over a list whose body may raise.\<close>

fun for_each :: "'a list \<Rightarrow> ('a \<Rightarrow> 's \<Rightarrow> error + 's) \<Rightarrow> 's \<Rightarrow> error + 's" where
  "for_each [] body s = Inr s"
| "for_each (x # xs) body s = (case body x s of Inl e \<Rightarrow> Inl e | Inr s' \<Rightarrow> for_each xs body s')"

section \<open>The random source\<close>

text \<open>
  Every call of the \<^verbatim>\<open>random\<close> module is modelled by a function of a natural number
  \<open>r\<close> that the caller supplies: \<open>r\<close> ranges over the possible outcomes of the call.

  \<^verbatim>\<open>randrange(a, b)\<close> returns an integer of \<open>[a, b)\<close> and raises \<^verbatim>\<open>ValueError\<close> on
  an empty range; \<^verbatim>\<open>randint(a, b)\<close> is \<^verbatim>\<open>randrange(a, b + 1)\<close>.
\<close>

definition randrange :: "nat \<Rightarrow> int \<Rightarrow> int \<Rightarrow> error + int" where
  "randrange r a b =
     (if a < b then Inr (a + int (r mod nat (b - a)))
      else Inl (ValueError ''empty range for randrange()''))"

definition randint :: "nat \<Rightarrow> int \<Rightarrow> int \<Rightarrow> error + int" where
  "randint r a b = randrange r a (b + 1)"

text \<open>
  \<^verbatim>\<open>random.sample(population, k)\<close>: \<open>k\<close> elements at pairwise different positions, in
  any order.  Each pick takes one position of what is left of the population; the
  \<open>j\<close>-th pick is decided by \<open>rnd j\<close>.
\<close>

fun pick :: "(nat \<Rightarrow> nat) \<Rightarrow> 'a list \<Rightarrow> nat \<Rightarrow> 'a list" where
  "pick rnd pool 0 = []"
| "pick rnd pool (Suc k) =
     (let i = rnd k mod length pool
      in pool ! i # pick rnd (take i pool @ drop (Suc i) pool) k)"

definition sample :: "(nat \<Rightarrow> nat) \<Rightarrow> 'a list \<Rightarrow> int \<Rightarrow> error + 'a list" where
  "sample rnd population k =
     (if k < 0 \<or> int (length population) < k
      then Inl (ValueError ''Sample larger than population or is negative'')
      else Inr (pick rnd population (nat k)))"

section \<open>SwitchGraph: the counted multiset of arcs (graph.py, class SwitchGraph)\<close>

type_synonym vertex = int
type_synonym key = "vertex \<times> vertex"

text \<open>
  \<^verbatim>\<open>__edges\<close> is a \<^verbatim>\<open>Counter\<close>, a dict that keeps insertion order: an association list
  with distinct keys.  Assigning to a present key keeps its position, assigning to a
  new key appends (\<open>AList.update\<close>), \<^verbatim>\<open>pop\<close> deletes (\<open>AList.delete\<close>).
\<close>

type_synonym counter = "(key \<times> int) list"

record SwitchGraph =
  sw_directed :: bool
  sw_edges :: counter

text \<open>\<^verbatim>\<open>Counter.__getitem__\<close>: a missing key reads as 0.\<close>

definition count :: "counter \<Rightarrow> key \<Rightarrow> int" where
  "count c k = (case map_of c k of None \<Rightarrow> 0 | Some n \<Rightarrow> n)"

text \<open>\<^verbatim>\<open>itertools.repeat(k, c)\<close> for every item: nothing for a count below 1.\<close>

definition elements :: "counter \<Rightarrow> key list" where
  "elements c = concat (map (\<lambda>(k, n). replicate (nat n) k) c)"

definition get_edges :: "SwitchGraph \<Rightarrow> key list" where
  "get_edges g =
     sort (elements (filter (\<lambda>(k, n). sw_directed g \<or> fst k \<le> snd k) (sw_edges g)))"

definition edge_count :: "SwitchGraph \<Rightarrow> int" where
  "edge_count g = sum_list (map snd (filter (\<lambda>(k, n). fst k \<le> snd k) (sw_edges g)))"

text \<open>\<^verbatim>\<open>__insert\<close> and \<^verbatim>\<open>__remove\<close>, the private single-key updates.\<close>

definition insert_priv :: "SwitchGraph \<Rightarrow> vertex \<Rightarrow> vertex \<Rightarrow> SwitchGraph" where
  "insert_priv g u v =
     g\<lparr>sw_edges := AList.update (u, v) (count (sw_edges g) (u, v) + 1) (sw_edges g)\<rparr>"

definition remove_priv :: "SwitchGraph \<Rightarrow> vertex \<Rightarrow> vertex \<Rightarrow> SwitchGraph" where
  "remove_priv g u v =
     (let c = AList.update (u, v) (count (sw_edges g) (u, v) - 1) (sw_edges g)
      in g\<lparr>sw_edges := (if count c (u, v) = 0 then AList.delete (u, v) c else c)\<rparr>)"

definition insert_sg :: "SwitchGraph \<Rightarrow> vertex \<Rightarrow> vertex \<Rightarrow> SwitchGraph" where
  "insert_sg g u v =
     (let g1 = insert_priv g u v
      in if \<not> sw_directed g1 \<and> u \<noteq> v then insert_priv g1 v u else g1)"

definition remove_sg :: "SwitchGraph \<Rightarrow> vertex \<Rightarrow> vertex \<Rightarrow> SwitchGraph" where
  "remove_sg g u v =
     (let g1 = remove_priv g u v
      in if \<not> sw_directed g1 \<and> u \<noteq> v then remove_priv g1 v u else g1)"

text \<open>\<^verbatim>\<open>__init__\<close>: an empty counter, then one \<^verbatim>\<open>insert\<close> per given edge.\<close>

definition SwitchGraph_init :: "key list \<Rightarrow> bool \<Rightarrow> SwitchGraph" where
  "SwitchGraph_init es d =
     fold (\<lambda>e g. insert_sg g (fst e) (snd e)) es \<lparr>sw_directed = d, sw_edges = []\<rparr>"

text \<open>
  One draw of \<^verbatim>\<open>random.choices(keys, values)\<close>: a key is drawn with probability
  proportional to its count, which is a uniform draw from the expanded multiset.
  The random source is the number \<open>r\<close>.  An empty population raises \<^verbatim>\<open>IndexError\<close>, a
  total weight that is not positive raises \<^verbatim>\<open>ValueError\<close>.
\<close>

definition choices :: "counter \<Rightarrow> nat \<Rightarrow> error + key" where
  "choices c r =
     (if c = [] then Inl IndexError
      else if elements c = [] then Inl (ValueError ''Total of weights must be greater than zero'')
      else Inr (elements c ! (r mod length (elements c))))"

text \<open>\<^verbatim>\<open>sorted(first)\<close> on a pair.\<close>

definition sorted_pair :: "key \<Rightarrow> key" where
  "sorted_pair k = (if fst k \<le> snd k then k else (snd k, fst k))"

definition has_key :: "SwitchGraph \<Rightarrow> key \<Rightarrow> bool" where
  "has_key g k = (map_of (sw_edges g) k \<noteq> None)"

definition switch :: "SwitchGraph \<Rightarrow> bool \<Rightarrow> bool \<Rightarrow> nat \<Rightarrow> nat \<Rightarrow> error + bool \<times> SwitchGraph" where
  "switch g self_loop repeated_edges r1 r2 =
     (case choices (sw_edges g) r1 of
        Inl e \<Rightarrow> Inl e
      | Inr first \<Rightarrow>
         (case choices (sw_edges g) r2 of
            Inl e \<Rightarrow> Inl e
          | Inr second \<Rightarrow>
             (let (x1, y1) = (if sw_directed g then first else sorted_pair first);
                  (x2, y2) = (if sw_directed g then second else sorted_pair second)
              in if self_loop \<and> (x1 = x2 \<or> y1 = y2) then Inr (False, g)
                 else if \<not> self_loop \<and> {x1, y1} \<inter> {x2, y2} \<noteq> {} then Inr (False, g)
                 else if \<not> repeated_edges \<and> (has_key g (x1, y2) \<or> has_key g (x2, y1))
                   then Inr (False, g)
                 else Inr (True,
                   insert_sg (remove_sg (insert_sg (remove_sg g x1 y1) x1 y2) x2 y2) x2 y1))))"

text \<open>
  The well-formedness of a multiset: the keys are those of a dict (distinct), every
  stored count is positive, and an undirected multiset stores each arc with its mirror.
\<close>

definition wf :: "SwitchGraph \<Rightarrow> bool" where
  "wf g \<longleftrightarrow>
     distinct (map fst (sw_edges g)) \<and>
     list_all (\<lambda>(k, n). 0 < n) (sw_edges g) \<and>
     (sw_directed g \<or> list_all (\<lambda>(k, n). count (sw_edges g) (snd k, fst k) = n) (sw_edges g))"

text \<open>
  Degrees, read off the observable edge list: an arc \<open>(a, b)\<close> of \<open>get_edges\<close> counts once
  for the out-degree of \<open>a\<close> and once for the in-degree of \<open>b\<close>; in an undirected multiset
  the degree of a vertex counts every canonical edge once per endpoint, a self-loop twice.
\<close>

definition out_degree :: "SwitchGraph \<Rightarrow> vertex \<Rightarrow> int" where
  "out_degree g v = int (length (filter (\<lambda>e. fst e = v) (get_edges g)))"

definition in_degree :: "SwitchGraph \<Rightarrow> vertex \<Rightarrow> int" where
  "in_degree g v = int (length (filter (\<lambda>e. snd e = v) (get_edges g)))"

definition degree :: "SwitchGraph \<Rightarrow> vertex \<Rightarrow> int" where
  "degree g v = out_degree g v + in_degree g v"


section \<open>Greedy realization of degree sequences (graph.py, SwitchGraph)\<close>

text \<open>\<^verbatim>\<open>list.sort(reverse=True)\<close>: descending, lists compared lexicographically.\<close>

definition sort_reverse :: "'a::linorder list \<Rightarrow> 'a list" where
  "sort_reverse xs = rev (sort xs)"

text \<open>
  \<^verbatim>\<open>enumerate(degree_sequence, 1)\<close>: the entries with their positions, counted from 1.
\<close>

definition enumerate1 :: "'a list \<Rightarrow> (int \<times> 'a) list" where
  "enumerate1 xs = zip (map (\<lambda>i. int i + 1) [0..<length xs]) xs"

subsection \<open>Directed: \<^verbatim>\<open>from_directed_degree_sequence\<close>\<close>

text \<open>A working entry \<^verbatim>\<open>[sout, sin, vn]\<close>.\<close>

type_synonym dentry = "int \<times> int \<times> vertex"

definition d_out :: "dentry \<Rightarrow> int" where "d_out s = fst s"
definition d_in :: "dentry \<Rightarrow> int" where "d_in s = fst (snd s)"
definition d_vn :: "dentry \<Rightarrow> vertex" where "d_vn s = snd (snd s)"

text \<open>
  The innermost loop \<^verbatim>\<open>while in_deg and degseq[j][0]\<close>; the caller has read \<^verbatim>\<open>degseq[j]\<close>
  before.  Python's truth test of an integer is \<open>\<noteq> 0\<close>, so on a negative value the loop
  does not return: the result is an option.
\<close>

partial_function (option) dir_inner ::
  "bool \<Rightarrow> vertex \<Rightarrow> vertex \<Rightarrow> nat \<Rightarrow> int \<Rightarrow> dentry list \<Rightarrow> SwitchGraph
     \<Rightarrow> (int \<times> dentry list \<times> SwitchGraph) option" where
  "dir_inner repeated_edges vfrom vto j in_deg degseq ret =
     (if in_deg \<noteq> 0 \<and> d_out (degseq ! j) \<noteq> 0 then
        (let in_deg' = in_deg - 1;
             degseq' = degseq[j := (d_out (degseq ! j) - 1, d_in (degseq ! j), d_vn (degseq ! j))];
             ret' = insert_sg ret vfrom vto
         in if \<not> repeated_edges then Some (in_deg', degseq', ret')
            else dir_inner repeated_edges vfrom vto j in_deg' degseq' ret')
      else Some (in_deg, degseq, ret))"

declare dir_inner.simps [code]

text \<open>The loop \<^verbatim>\<open>while in_deg\<close> over the sources \<open>j\<close>; an index past the end raises.\<close>

partial_function (option) dir_middle ::
  "bool \<Rightarrow> bool \<Rightarrow> vertex \<Rightarrow> nat \<Rightarrow> int \<Rightarrow> dentry list \<Rightarrow> SwitchGraph
     \<Rightarrow> (error + dentry list \<times> SwitchGraph) option" where
  "dir_middle self_loop repeated_edges vto j in_deg degseq ret =
     (if in_deg \<noteq> 0 then
        (if length degseq \<le> j then Some (Inl IndexError)
         else if vto = d_vn (degseq ! j) \<and> \<not> self_loop then
           (if length degseq \<le> j + 1 then Some (Inl IndexError)
            else Option.bind
              (dir_inner repeated_edges (d_vn (degseq ! (j + 1))) vto (j + 1) in_deg degseq ret)
              (\<lambda>(in_deg', degseq', ret').
                 dir_middle self_loop repeated_edges vto (j + 2) in_deg' degseq' ret'))
         else Option.bind
              (dir_inner repeated_edges (d_vn (degseq ! j)) vto j in_deg degseq ret)
              (\<lambda>(in_deg', degseq', ret').
                 dir_middle self_loop repeated_edges vto (j + 1) in_deg' degseq' ret'))
      else Some (Inr (degseq, ret)))"

declare dir_middle.simps [code]

text \<open>The outer loop \<^verbatim>\<open>while max(s[1] for s in degseq) > 0\<close>.\<close>

partial_function (option) dir_outer ::
  "bool \<Rightarrow> bool \<Rightarrow> dentry list \<Rightarrow> SwitchGraph \<Rightarrow> (error + SwitchGraph) option" where
  "dir_outer self_loop repeated_edges degseq ret =
     (if degseq = [] then Some (Inl (ValueError ''max() arg is an empty sequence''))
      else if 0 < Max (set (map d_in degseq)) then
        (case filter (\<lambda>i. 0 < d_in (degseq ! i)) [0..<length degseq] of
           [] \<Rightarrow> Some (Inl IndexError)
         | k0 # _ \<Rightarrow>
            (let in_deg = d_in (degseq ! k0); vto = d_vn (degseq ! k0);
                 degseq1 = degseq[k0 := (d_out (degseq ! k0), 0, vto)]
             in Option.bind (dir_middle self_loop repeated_edges vto 0 in_deg degseq1 ret)
                  (\<lambda>r. case r of
                     Inl e \<Rightarrow> Some (Inl e)
                   | Inr (degseq2, ret2) \<Rightarrow>
                       dir_outer self_loop repeated_edges (sort_reverse degseq2) ret2)))
      else Some (Inr ret))"

declare dir_outer.simps [code]

text \<open>
  \<^verbatim>\<open>except IndexError as e: raise ValueError("Degree sequence is not graphical.")\<close>
\<close>

definition index_error_not_graphical :: "error + 'a \<Rightarrow> error + 'a" where
  "index_error_not_graphical r =
     (case r of Inl e \<Rightarrow> if e = IndexError then Inl not_graphical else Inl e | Inr x \<Rightarrow> Inr x)"

text \<open>
  The entries are unpacked as \<^verbatim>\<open>for vn, (sin, sout) in enumerate(degree_sequence, 1)\<close>:
  the first component of a pair is the in-degree, the second the out-degree.
  \<^verbatim>\<open>x, y = zip(*degree_sequence)\<close> cannot unpack the empty zip, so an empty sequence
  raises there and never reaches the test \<^verbatim>\<open>len(degree_sequence) == 0\<close>.
  The result is \<open>None\<close> when a loop does not return.
\<close>

definition from_directed_degree_sequence ::
  "(int \<times> int) list \<Rightarrow> bool \<Rightarrow> bool \<Rightarrow> (error + SwitchGraph) option" where
  "from_directed_degree_sequence degree_sequence self_loop repeated_edges =
     (if list_ex (\<lambda>(x, y). x < 0 \<or> y < 0) degree_sequence then Some (Inl not_graphical)
      else if degree_sequence = []
        then Some (Inl (ValueError ''not enough values to unpack (expected 2, got 0)''))
      else if sum_list (map fst degree_sequence) \<noteq> sum_list (map snd degree_sequence)
        then Some (Inl not_graphical)
      else
        (let ret = SwitchGraph_init [] True
         in if length degree_sequence = 0 then Some (Inr ret)
            else
              (let degseq = sort_reverse
                     (map (\<lambda>(vn, (sin, sout)). (sout, sin, vn)) (enumerate1 degree_sequence))
               in map_option index_error_not_graphical
                    (dir_outer self_loop repeated_edges degseq ret))))"

subsection \<open>Undirected: \<^verbatim>\<open>from_undirected_degree_sequence\<close>\<close>

text \<open>A working entry \<^verbatim>\<open>[deg, i]\<close>.\<close>

type_synonym uentry = "int \<times> vertex"

text \<open>The self-loop loop \<^verbatim>\<open>while deg > 1\<close>.\<close>

function und_self_loops :: "bool \<Rightarrow> vertex \<Rightarrow> int \<Rightarrow> key list \<Rightarrow> int \<times> key list" where
  "und_self_loops repeated_edges x deg edges =
     (if 1 < deg then
        (if \<not> repeated_edges then (deg - 2, edges @ [(x, x)])
         else und_self_loops repeated_edges x (deg - 2) (edges @ [(x, x)]))
      else (deg, edges))"
  by pat_completeness auto
termination
  by (relation "measure (\<lambda>(re, x, deg, edges). nat deg)") auto

text \<open>
  The innermost loop \<^verbatim>\<open>while deg and degseq[y][0]\<close>: \<^verbatim>\<open>degseq[y]\<close> is read only when
  \<^verbatim>\<open>deg\<close> is not zero, and raises past the end of the list.
\<close>

partial_function (option) und_inner ::
  "bool \<Rightarrow> vertex \<Rightarrow> nat \<Rightarrow> int \<Rightarrow> uentry list \<Rightarrow> key list
     \<Rightarrow> (error + int \<times> uentry list \<times> key list) option" where
  "und_inner repeated_edges x y deg degseq edges =
     (if deg \<noteq> 0 then
        (if length degseq \<le> y then Some (Inl IndexError)
         else if fst (degseq ! y) \<noteq> 0 then
           (let deg' = deg - 1;
                degseq' = degseq[y := (fst (degseq ! y) - 1, snd (degseq ! y))];
                edges' = edges @ [(x, snd (degseq' ! y))]
            in if \<not> repeated_edges then Some (Inr (deg', degseq', edges'))
               else und_inner repeated_edges x y deg' degseq' edges')
         else Some (Inr (deg, degseq, edges)))
      else Some (Inr (deg, degseq, edges)))"

declare und_inner.simps [code]

partial_function (option) und_middle ::
  "bool \<Rightarrow> vertex \<Rightarrow> nat \<Rightarrow> int \<Rightarrow> uentry list \<Rightarrow> key list
     \<Rightarrow> (error + uentry list \<times> key list) option" where
  "und_middle repeated_edges x y deg degseq edges =
     (if deg \<noteq> 0 then
        Option.bind (und_inner repeated_edges x y deg degseq edges)
          (\<lambda>r. case r of
             Inl e \<Rightarrow> Some (Inl e)
           | Inr (deg', degseq', edges') \<Rightarrow>
               und_middle repeated_edges x (y + 1) deg' degseq' edges')
      else Some (Inr (degseq, edges)))"

declare und_middle.simps [code]

text \<open>The outer loop \<^verbatim>\<open>while len(edges) * 2 < sum(degree_sequence)\<close>.\<close>

partial_function (option) und_outer ::
  "bool \<Rightarrow> bool \<Rightarrow> int list \<Rightarrow> uentry list \<Rightarrow> key list \<Rightarrow> (error + key list) option" where
  "und_outer self_loop repeated_edges degree_sequence degseq edges =
     (if int (length edges) * 2 < sum_list degree_sequence then
        (case degseq of
           [] \<Rightarrow> Some (Inl IndexError)
         | first # rest \<Rightarrow>
            (let deg = fst first; x = snd first;
                 degseq1 = degseq[0 := (0, x)];
                 sl = (if self_loop then und_self_loops repeated_edges x deg edges
                       else (deg, edges))
             in Option.bind (und_middle repeated_edges x 1 (fst sl) degseq1 (snd sl))
                  (\<lambda>r. case r of
                     Inl e \<Rightarrow> Some (Inl e)
                   | Inr (degseq2, edges2) \<Rightarrow>
                       und_outer self_loop repeated_edges degree_sequence
                         (sort_reverse degseq2) edges2)))
      else Some (Inr edges))"

declare und_outer.simps [code]

definition from_undirected_degree_sequence ::
  "int list \<Rightarrow> bool \<Rightarrow> bool \<Rightarrow> (error + SwitchGraph) option" where
  "from_undirected_degree_sequence degree_sequence self_loop repeated_edges =
     (if list_ex (\<lambda>x. x < 0) degree_sequence then Some (Inl not_graphical)
      else if sum_list degree_sequence mod 2 \<noteq> 0 then Some (Inl not_graphical)
      else if length degree_sequence = 0 then Some (Inr (SwitchGraph_init [] False))
      else
        (let degseq = sort_reverse (map (\<lambda>(i, deg). (deg, i)) (enumerate1 degree_sequence))
         in map_option
              (\<lambda>r. then_e (index_error_not_graphical r) (\<lambda>edges. Inr (SwitchGraph_init edges False)))
              (und_outer self_loop repeated_edges degree_sequence degseq [])))"


section \<open>Graph: the adjacency-list container and its factories (graph.py, class Graph)\<close>

record Edge =
  start :: vertex
  endv :: vertex
  weight :: int

record Graph =
  directed :: bool
  edges :: "Edge list list"

text \<open>\<^verbatim>\<open>Graph(point_count, directed)\<close>: one empty bucket per index \<open>0 .. point_count\<close>.\<close>

definition Graph_init :: "int \<Rightarrow> bool \<Rightarrow> Graph" where
  "Graph_init point_count d = \<lparr>directed = d, edges = replicate (nat (point_count + 1)) []\<rparr>"

definition iterate_edges :: "Graph \<Rightarrow> Edge list" where
  "iterate_edges g =
     concat (map (filter (\<lambda>edge. start edge \<le> endv edge \<or> directed g)) (edges g))"

definition Graph_edge_count :: "Graph \<Rightarrow> int" where
  "Graph_edge_count g = int (length (iterate_edges g))"

text \<open>
  \<^verbatim>\<open>__add_edge\<close>: \<^verbatim>\<open>self.edges[x].append(Edge(x, y, w))\<close>, with Python's indexing: a negative
  index counts from the end, an index out of range raises \<^verbatim>\<open>IndexError\<close>.
\<close>

definition add_edge_priv :: "Graph \<Rightarrow> vertex \<Rightarrow> vertex \<Rightarrow> int \<Rightarrow> error + Graph" where
  "add_edge_priv g x y w =
     (let n = int (length (edges g)); i = (if x < 0 then x + n else x)
      in if 0 \<le> i \<and> i < n
         then Inr (g\<lparr>edges := (edges g)[nat i :=
                 edges g ! nat i @ [\<lparr>start = x, endv = y, weight = w\<rparr>]]\<rparr>)
         else Inl IndexError)"

definition add_edge :: "Graph \<Rightarrow> vertex \<Rightarrow> vertex \<Rightarrow> int \<Rightarrow> error + Graph" where
  "add_edge g x y w =
     then_e (add_edge_priv g x y w)
       (\<lambda>g1. if \<not> directed g1 \<and> x \<noteq> y then add_edge_priv g1 y x w else Inr g1)"

text \<open>
  \<^verbatim>\<open>graph.add_edge(x, y, weight=weight_gen())\<close>.  The generator \<^verbatim>\<open>weight_gen\<close> is called
  once per edge; \<open>weight_gen k\<close> is the value of its \<open>k\<close>-th call, and the state of a
  factory is the graph with the number of calls made so far.
\<close>

definition add_weighted ::
  "(nat \<Rightarrow> int) \<Rightarrow> vertex \<Rightarrow> vertex \<Rightarrow> Graph \<times> nat \<Rightarrow> error + Graph \<times> nat" where
  "add_weighted weight_gen x y s =
     then_e (add_edge (fst s) x y (weight_gen (snd s))) (\<lambda>g. Inr (g, Suc (snd s)))"

text \<open>\<^verbatim>\<open>range(a, b)\<close>.\<close>

definition py_range :: "int \<Rightarrow> int \<Rightarrow> int list" where
  "py_range a b = [a..b - 1]"

text \<open>\<^verbatim>\<open>int(q)\<close> truncates towards zero.\<close>

definition py_int :: "rat \<Rightarrow> int" where
  "py_int q = (if 0 \<le> q then \<lfloor>q\<rfloor> else \<lceil>q\<rceil>)"

text \<open>
  \<^verbatim>\<open>Graph.tree\<close>.  The fractions \<^verbatim>\<open>chain\<close> and \<^verbatim>\<open>flower\<close> are rationals (exact for the
  integers 0 and 1 the other factories pass); \<^verbatim>\<open>father_gen\<close> may raise.
\<close>

definition tree ::
  "int \<Rightarrow> rat \<Rightarrow> rat \<Rightarrow> bool \<Rightarrow> (nat \<Rightarrow> int) \<Rightarrow> (int \<Rightarrow> error + int) \<Rightarrow> error + Graph" where
  "tree point_count chain flower directed_kw weight_gen father_gen =
     (if \<not> (0 \<le> chain \<and> chain \<le> 1) \<or> \<not> (0 \<le> flower \<and> flower \<le> 1)
        then Inl (Exception ''chain and flower must be between 0 and 1'')
      else if 1 < chain + flower
        then Inl (Exception ''chain plus flower must be smaller than 1'')
      else
        (let graph = Graph_init point_count directed_kw;
             chain_count0 = py_int (of_int (point_count - 1) * chain);
             flower_count0 = py_int (of_int (point_count - 1) * flower);
             chain_count = (if point_count - 1 < chain_count0 then point_count - 1
                            else chain_count0);
             flower_count = (if point_count - 1 < chain_count + flower_count0
                             then point_count - 1 - chain_count else flower_count0);
             random_count = point_count - 1 - chain_count - flower_count
         in then_e
              (then_e
                (then_e
                  (for_each (py_range 2 (chain_count + 2))
                     (\<lambda>i. add_weighted weight_gen (i - 1) i) (graph, 0))
                  (for_each (py_range (chain_count + 2) (chain_count + flower_count + 2))
                     (\<lambda>i. add_weighted weight_gen 1 i)))
                (for_each (py_range (point_count - random_count + 1) (point_count + 1))
                   (\<lambda>i s. then_e (father_gen i) (\<lambda>u. add_weighted weight_gen u i s))))
              (\<lambda>s. Inr (fst s))))"

text \<open>The default \<^verbatim>\<open>father_gen = lambda cur: random.randrange(1, cur)\<close>.\<close>

definition default_father_gen :: "(int \<Rightarrow> nat) \<Rightarrow> int \<Rightarrow> error + int" where
  "default_father_gen rnd cur = randrange (rnd cur) 1 cur"

text \<open>\<^verbatim>\<open>Graph._calc_max_edge\<close>.\<close>

definition calc_max_edge :: "int \<Rightarrow> bool \<Rightarrow> bool \<Rightarrow> int" where
  "calc_max_edge point_count directed_kw self_loop =
     (let max_edge = point_count * (point_count - 1);
          max_edge = (if \<not> directed_kw then max_edge div 2 else max_edge);
          max_edge = (if self_loop then max_edge + point_count else max_edge)
      in max_edge)"

text \<open>
  The rejection loop of \<^verbatim>\<open>Graph.graph\<close>: \<open>i\<close> counts the accepted edges, \<open>t\<close> the draws made,
  \<open>k\<close> the calls of \<^verbatim>\<open>weight_gen\<close>.  A random source that is rejected for ever never
  leaves the loop: the result is an option.
\<close>

partial_function (option) graph_loop ::
  "int \<Rightarrow> int \<Rightarrow> bool \<Rightarrow> bool \<Rightarrow> (nat \<Rightarrow> int) \<Rightarrow> (nat \<Rightarrow> nat)
     \<Rightarrow> int \<Rightarrow> nat \<Rightarrow> Graph \<times> nat \<Rightarrow> key set \<Rightarrow> (error + Graph) option" where
  "graph_loop point_count edge_count_kw self_loop repeated_edges weight_gen rnd i t s used_edges =
     (if i < edge_count_kw then
        (case randint (rnd t) 1 point_count of
           Inl e \<Rightarrow> Some (Inl e)
         | Inr u \<Rightarrow>
            (case randint (rnd (t + 1)) 1 point_count of
               Inl e \<Rightarrow> Some (Inl e)
             | Inr v \<Rightarrow>
                if (\<not> self_loop \<and> u = v) \<or> (\<not> repeated_edges \<and> (u, v) \<in> used_edges)
                then graph_loop point_count edge_count_kw self_loop repeated_edges weight_gen rnd
                       i (t + 2) s used_edges
                else
                  (case add_weighted weight_gen u v s of
                     Inl e \<Rightarrow> Some (Inl e)
                   | Inr s' \<Rightarrow>
                      graph_loop point_count edge_count_kw self_loop repeated_edges weight_gen rnd
                        (i + 1) (t + 2) s'
                        (if \<not> repeated_edges
                         then (if \<not> directed (fst s) then insert (v, u) (insert (u, v) used_edges)
                               else insert (u, v) used_edges)
                         else used_edges))))
      else Some (Inr (fst s)))"

declare graph_loop.simps [code]

text \<open>\<^verbatim>\<open>Graph.graph\<close>: the capacity check comes before the graph is created.\<close>

definition graph ::
  "int \<Rightarrow> int \<Rightarrow> bool \<Rightarrow> bool \<Rightarrow> bool \<Rightarrow> (nat \<Rightarrow> int) \<Rightarrow> (nat \<Rightarrow> nat)
     \<Rightarrow> (error + Graph) option" where
  "graph point_count edge_count_kw self_loop repeated_edges directed_kw weight_gen rnd =
     (if \<not> repeated_edges \<and> calc_max_edge point_count directed_kw self_loop < edge_count_kw
      then Some (Inl (Exception
        ''the number of edges of this kind of graph must be less than or equal to max_edge''))
      else graph_loop point_count edge_count_kw self_loop repeated_edges weight_gen rnd
             0 0 (Graph_init point_count directed_kw, 0) {})"

text \<open>
  \<^verbatim>\<open>Graph.hack_spfa\<close>.  \<^verbatim>\<open>point_count / 2\<close> is a true division: \<^verbatim>\<open>point_to_skip\<close> is a
  rational, and \<^verbatim>\<open>x + (x >= point_to_skip)\<close> adds the truth value as 0 or 1.
\<close>

definition skip_from :: "rat \<Rightarrow> int \<Rightarrow> int" where
  "skip_from point_to_skip x = x + (if point_to_skip \<le> of_int x then 1 else 0)"

definition hack_spfa ::
  "int \<Rightarrow> bool \<Rightarrow> int \<Rightarrow> (nat \<Rightarrow> int) \<Rightarrow> (nat \<Rightarrow> nat) \<Rightarrow> error + Graph" where
  "hack_spfa point_count directed_kw extra_edge weight_gen rnd =
     (let graph = Graph_init point_count directed_kw;
          point_to_skip = (if point_count mod 2 = 1 then of_int point_count / 2 + 1
                           else of_int (point_count + 3));
          half = py_int (of_int point_count / 2)
      in then_e
           (then_e
             (then_e
               (for_each (py_range 1 half)
                  (\<lambda>i s. then_e
                     (add_weighted weight_gen
                        (skip_from point_to_skip i) (skip_from point_to_skip (i + 1)) s)
                     (add_weighted weight_gen
                        (skip_from point_to_skip (i + half))
                        (skip_from point_to_skip (i + half + 1))))
                  (graph, 0))
               (for_each (py_range 1 (half + 1))
                  (\<lambda>i. add_weighted weight_gen
                     (skip_from point_to_skip i) (skip_from point_to_skip (i + half)))))
             (for_each (py_range 0 extra_edge)
                (\<lambda>i s. then_e (randint (rnd (2 * nat i)) 1 point_count)
                   (\<lambda>u. then_e (randint (rnd (2 * nat i + 1)) 1 point_count)
                      (\<lambda>v. add_weighted weight_gen u v s)))))
           (\<lambda>s. Inr (fst s)))"

text \<open>
  \<^verbatim>\<open>Graph.forest\<close>: the keyword arguments are those of \<^verbatim>\<open>tree\<close>; \<open>rnd\<close> decides
  \<^verbatim>\<open>random.sample\<close>.
\<close>

definition forest ::
  "int \<Rightarrow> int \<Rightarrow> rat \<Rightarrow> rat \<Rightarrow> bool \<Rightarrow> (nat \<Rightarrow> int) \<Rightarrow> (int \<Rightarrow> error + int) \<Rightarrow> (nat \<Rightarrow> nat)
     \<Rightarrow> error + Graph" where
  "forest point_count tree_count chain flower directed_kw weight_gen father_gen rnd =
     (if tree_count \<le> 0 \<or> point_count < tree_count
        then Inl (ValueError ''tree_count must be between 1 and point_count'')
      else
        then_e (tree point_count chain flower directed_kw weight_gen father_gen)
          (\<lambda>tree_g.
             (let tree_edges = iterate_edges tree_g;
                  result = Graph_init point_count (directed tree_g)
              in then_e (sample rnd tree_edges (int (length tree_edges) - tree_count + 1))
                   (\<lambda>need_add.
                      for_each need_add
                        (\<lambda>edge g. add_edge g (start edge) (endv edge) (weight edge)) result))))"

text \<open>
  Connected components of a graph on the vertices \<open>1 .. point_count\<close>: two vertices are
  connected when a chain of edges, each taken in either direction, joins them.
\<close>

definition vertices :: "Graph \<Rightarrow> vertex set" where
  "vertices g = {1 .. int (length (edges g)) - 1}"

definition adjacent :: "Graph \<Rightarrow> (vertex \<times> vertex) set" where
  "adjacent g = (\<lambda>e. (start e, endv e)) ` set (iterate_edges g)"

definition connected :: "Graph \<Rightarrow> (vertex \<times> vertex) set" where
  "connected g = (adjacent g \<union> (adjacent g)\<inverse>)\<^sup>*"

definition component_of :: "Graph \<Rightarrow> vertex \<Rightarrow> vertex set" where
  "component_of g v = {u \<in> vertices g. (v, u) \<in> connected g}"

definition component_count :: "Graph \<Rightarrow> nat" where
  "component_count g = card (component_of g ` vertices g)"

section \<open>RangeQuery (query.py)\<close>

datatype RangeQueryRandomMode = mode_less | mode_allow_equal

text \<open>
  One entry of \<^verbatim>\<open>position_range\<close>: an integer, or a list or tuple of integers.
\<close>

datatype position = PInt int | PSeq "int list"

text \<open>
  \<^verbatim>\<open>cur_range\<close>: \<^verbatim>\<open>(1, x)\<close> for an integer or a one-element sequence, the sequence itself
  otherwise; reading \<^verbatim>\<open>cur_range[0]\<close> and \<^verbatim>\<open>cur_range[1]\<close> raises on a shorter one.
\<close>

definition cur_range :: "position \<Rightarrow> error + int \<times> int" where
  "cur_range p =
     (case p of
        PInt x \<Rightarrow> Inr (1, x)
      | PSeq xs \<Rightarrow>
          if length xs = 1 then Inr (1, xs ! 0)
          else if length xs < 2 then Inl IndexError
          else Inr (xs ! 0, xs ! 1))"

text \<open>
  \<^verbatim>\<open>sys.maxsize\<close>, the largest length of a sequence: \<open>2\<^sup>6\<^sup>3 - 1\<close> on a 64-bit CPython.
\<close>

definition maxsize :: int where
  "maxsize = 2 ^ 63 - 1"

text \<open>
  \<^verbatim>\<open>random.sample(range(a, b), k)\<close>.  The range object itself holds integers of any
  size, but \<^verbatim>\<open>sample\<close> starts with \<^verbatim>\<open>len(population)\<close>, which raises \<^verbatim>\<open>OverflowError\<close>
  when the range has more than \<^verbatim>\<open>sys.maxsize\<close> values; otherwise it samples the values of
  the range.
\<close>

definition sample_range :: "(nat \<Rightarrow> nat) \<Rightarrow> int \<Rightarrow> int \<Rightarrow> int \<Rightarrow> error + int list" where
  "sample_range rnd a b k =
     (if maxsize < b - a then Inl OverflowError
      else sample rnd (py_range a b) k)"

text \<open>One pass of the loop body: the pair \<^verbatim>\<open>(l, r)\<close> appended for one dimension.\<close>

definition one_query ::
  "RangeQueryRandomMode \<Rightarrow> (nat \<Rightarrow> nat) \<Rightarrow> position \<Rightarrow> error + int \<times> int" where
  "one_query mode rnd p =
     then_e (cur_range p)
       (\<lambda>(lo, hi).
          if hi < lo then Inl (ValueError ''upper-bound should be larger than lower-bound'')
          else if mode = mode_less \<and> lo = hi
            then Inl (ValueError ''mode is set to less but upper-bound is equal to lower-bound'')
          else
            then_e
              (if mode = mode_less
               then then_e (sample_range rnd lo (hi + 1) 2) (\<lambda>lr. Inr (lr ! 0, lr ! 1))
               else then_e (randint (rnd 0) lo hi)
                      (\<lambda>l. then_e (randint (rnd 1) lo hi) (\<lambda>r. Inr (l, r))))
              (\<lambda>(l, r). Inr (if r < l then (r, l) else (l, r))))"

text \<open>
  The loop over the dimensions; dimension \<open>i\<close> draws from \<open>rnd (2 * i)\<close> and
  \<open>rnd (2 * i + 1)\<close>.
\<close>

fun query_loop ::
  "RangeQueryRandomMode \<Rightarrow> (nat \<Rightarrow> nat) \<Rightarrow> nat \<Rightarrow> position list \<Rightarrow> int list \<times> int list
     \<Rightarrow> error + int list \<times> int list" where
  "query_loop mode rnd i [] q = Inr q"
| "query_loop mode rnd i (p # ps) q =
     (case one_query mode (\<lambda>j. rnd (2 * i + j)) p of
        Inl e \<Rightarrow> Inl e
      | Inr (l, r) \<Rightarrow> query_loop mode rnd (Suc i) ps (fst q @ [l], snd q @ [r]))"

definition get_one_query ::
  "position list option \<Rightarrow> RangeQueryRandomMode \<Rightarrow> (nat \<Rightarrow> nat) \<Rightarrow> error + int list \<times> int list" where
  "get_one_query position_range mode rnd =
     (let position_range = (case position_range of None \<Rightarrow> [PInt 10] | Some ps \<Rightarrow> ps)
      in query_loop mode rnd 0 position_range ([], []))"


section \<open>SwitchGraph: counts, well-formedness and degrees\<close>

text \<open>
  The weighted total of a counter: every key \<open>k\<close> counts \<open>w k\<close> times its multiplicity.
  Degrees are such totals, and every mutation changes a total by the weight of the
  key it touches.
\<close>

definition total :: "(key \<Rightarrow> int) \<Rightarrow> counter \<Rightarrow> int" where
  "total w c = sum_list (map (\<lambda>(k, n). w k * n) c)"

lemma count_update: "count (AList.update k v c) k' = (if k' = k then v else count c k')"
  by (simp add: count_def update_conv')

lemma count_delete: "count (AList.delete k c) k' = (if k' = k then 0 else count c k')"
  by (simp add: count_def delete_conv')

lemma count_notin: "k \<notin> fst ` set c \<Longrightarrow> count c k = 0"
  by (auto simp: count_def split: option.splits dest: map_of_SomeD intro: rev_image_eqI)

lemma total_notin: "k \<notin> fst ` set c \<Longrightarrow> AList.update k v c = c @ [(k, v)]"
  by (induction c) auto

lemma total_update:
  "distinct (map fst c) \<Longrightarrow> total w (AList.update k v c) = total w c + w k * (v - count c k)"
proof (induction c)
  case Nil
  then show ?case by (simp add: total_def count_def)
next
  case (Cons a c)
  obtain k' n where a: "a = (k', n)" by (cases a)
  show ?case
  proof (cases "k' = k")
    case True
    then show ?thesis using a by (simp add: total_def count_def algebra_simps)
  next
    case False
    then show ?thesis using a Cons by (simp add: total_def count_def algebra_simps)
  qed
qed

lemma total_delete:
  "distinct (map fst c) \<Longrightarrow> total w (AList.delete k c) = total w c - w k * count c k"
proof (induction c)
  case Nil
  then show ?case by (simp add: total_def count_def AList.delete_eq)
next
  case (Cons a c)
  obtain k' n where a: "a = (k', n)" by (cases a)
  show ?case
  proof (cases "k' = k")
    case True
    with Cons a have "k \<notin> fst ` set c" by auto
    then have "AList.delete k c = c" by (induction c) (auto simp: AList.delete_eq)
    moreover have "count c k = 0" using \<open>k \<notin> fst ` set c\<close> by (rule count_notin)
    ultimately show ?thesis using a True by (simp add: total_def count_def AList.delete_eq)
  next
    case False
    then show ?thesis using a Cons by (simp add: total_def count_def AList.delete_eq algebra_simps)
  qed
qed

lemma total_insert_priv:
  "distinct (map fst (sw_edges g)) \<Longrightarrow>
   total w (sw_edges (insert_priv g u v)) = total w (sw_edges g) + w (u, v)"
  by (simp add: insert_priv_def total_update)

lemma total_remove_priv:
  "distinct (map fst (sw_edges g)) \<Longrightarrow>
   total w (sw_edges (remove_priv g u v)) = total w (sw_edges g) - w (u, v)"
  by (simp add: remove_priv_def Let_def total_update total_delete distinct_update count_update algebra_simps)

lemma distinct_insert_priv:
  "distinct (map fst (sw_edges g)) \<Longrightarrow> distinct (map fst (sw_edges (insert_priv g u v)))"
  by (simp add: insert_priv_def distinct_update)

lemma distinct_remove_priv:
  "distinct (map fst (sw_edges g)) \<Longrightarrow> distinct (map fst (sw_edges (remove_priv g u v)))"
  by (simp add: remove_priv_def Let_def distinct_update distinct_delete)

lemma directed_insert_priv [simp]: "sw_directed (insert_priv g u v) = sw_directed g"
  by (simp add: insert_priv_def)

lemma directed_remove_priv [simp]: "sw_directed (remove_priv g u v) = sw_directed g"
  by (simp add: remove_priv_def Let_def)

lemma count_insert_priv:
  "count (sw_edges (insert_priv g u v)) k = count (sw_edges g) k + (if k = (u, v) then 1 else 0)"
  by (simp add: insert_priv_def count_update)

lemma count_remove_priv:
  "count (sw_edges (remove_priv g u v)) k = count (sw_edges g) k - (if k = (u, v) then 1 else 0)"
  by (simp add: remove_priv_def Let_def count_update count_delete)


lemma dom_insert_priv:
  "dom (map_of (sw_edges (insert_priv g u v))) = insert (u, v) (dom (map_of (sw_edges g)))"
  by (simp add: insert_priv_def update_conv')

lemma dom_remove_priv:
  "dom (map_of (sw_edges (remove_priv g u v))) =
     (if count (sw_edges g) (u, v) = 1 then dom (map_of (sw_edges g)) - {(u, v)}
      else insert (u, v) (dom (map_of (sw_edges g))))"
  by (simp add: remove_priv_def Let_def update_conv' delete_conv' count_update)

definition keys_of :: "SwitchGraph \<Rightarrow> key set" where
  "keys_of g = dom (map_of (sw_edges g))"

definition cnt :: "SwitchGraph \<Rightarrow> key \<Rightarrow> int" where
  "cnt g k = count (sw_edges g) k"

lemma cnt_notin_keys: "k \<notin> keys_of g \<Longrightarrow> cnt g k = 0"
  by (auto simp: keys_of_def cnt_def count_def split: option.splits)

lemma wf_iff:
  "wf g \<longleftrightarrow> distinct (map fst (sw_edges g)) \<and> (\<forall>k \<in> keys_of g. 0 < cnt g k) \<and>
     (sw_directed g \<or> (\<forall>u v. cnt g (u, v) = cnt g (v, u)))"
proof (cases "distinct (map fst (sw_edges g))")
  case False
  then show ?thesis by (simp add: wf_def)
next
  case d: True
  have mem: "(k, n) \<in> set (sw_edges g) \<longleftrightarrow> map_of (sw_edges g) k = Some n" for k n
    using d by simp
  have pos: "list_all (\<lambda>(k, n). 0 < n) (sw_edges g) \<longleftrightarrow> (\<forall>k \<in> keys_of g. 0 < cnt g k)"
  proof
    assume l: "list_all (\<lambda>(k, n). 0 < n) (sw_edges g)"
    show "\<forall>k \<in> keys_of g. 0 < cnt g k"
    proof
      fix k assume "k \<in> keys_of g"
      then obtain n where n: "map_of (sw_edges g) k = Some n" by (auto simp: keys_of_def)
      then have "(k, n) \<in> set (sw_edges g)" by (simp add: mem)
      with l have "0 < n" by (auto simp: list_all_iff)
      with n show "0 < cnt g k" by (simp add: cnt_def count_def)
    qed
  next
    assume r: "\<forall>k \<in> keys_of g. 0 < cnt g k"
    show "list_all (\<lambda>(k, n). 0 < n) (sw_edges g)"
      unfolding list_all_iff
    proof
      fix x assume x: "x \<in> set (sw_edges g)"
      obtain k n where xe: "x = (k, n)" by (cases x)
      with x have m: "map_of (sw_edges g) k = Some n" by (simp add: mem)
      then have "k \<in> keys_of g" by (auto simp: keys_of_def)
      with r have "0 < cnt g k" by blast
      with m xe show "case x of (k, n) \<Rightarrow> 0 < n" by (simp add: cnt_def count_def)
    qed
  qed
  have sym: "list_all (\<lambda>(k, n). count (sw_edges g) (snd k, fst k) = n) (sw_edges g)
      \<longleftrightarrow> (\<forall>u v. cnt g (u, v) = cnt g (v, u))" if p: "\<forall>k \<in> keys_of g. 0 < cnt g k"
  proof
    assume l: "list_all (\<lambda>(k, n). count (sw_edges g) (snd k, fst k) = n) (sw_edges g)"
    have one: "cnt g (b, a) = cnt g (a, b)" if "(a, b) \<in> keys_of g" for a b
    proof -
      from that obtain n where n: "map_of (sw_edges g) (a, b) = Some n"
        by (auto simp: keys_of_def)
      then have "((a, b), n) \<in> set (sw_edges g)" by (simp add: mem)
      with l have "count (sw_edges g) (b, a) = n" by (auto simp: list_all_iff)
      with n show ?thesis by (simp add: cnt_def count_def)
    qed
    show "\<forall>u v. cnt g (u, v) = cnt g (v, u)"
    proof (intro allI)
      fix u v
      show "cnt g (u, v) = cnt g (v, u)"
      proof (cases "(u, v) \<in> keys_of g")
        case True
        then show ?thesis using one by simp
      next
        case nk: False
        show ?thesis
        proof (cases "(v, u) \<in> keys_of g")
          case True
          then show ?thesis using one [of v u] by simp
        next
          case False
          then show ?thesis using nk by (simp add: cnt_notin_keys)
        qed
      qed
    qed
  next
    assume s: "\<forall>u v. cnt g (u, v) = cnt g (v, u)"
    show "list_all (\<lambda>(k, n). count (sw_edges g) (snd k, fst k) = n) (sw_edges g)"
      unfolding list_all_iff
    proof (intro ballI)
      fix x assume x: "x \<in> set (sw_edges g)"
      obtain a b n where xe: "x = ((a, b), n)" by (cases x) auto
      with x have "map_of (sw_edges g) (a, b) = Some n" by (simp add: mem)
      then have "cnt g (a, b) = n" by (simp add: cnt_def count_def)
      with s have "cnt g (b, a) = n" by simp
      then show "case x of (k, n) \<Rightarrow> count (sw_edges g) (snd k, fst k) = n"
        using xe by (simp add: cnt_def)
    qed
  qed
  show ?thesis
  proof (cases "\<forall>k \<in> keys_of g. 0 < cnt g k")
    case True
    then show ?thesis using d pos sym by (simp add: wf_def)
  next
    case False
    then show ?thesis using d pos by (auto simp: wf_def)
  qed
qed

lemma cnt_insert_priv:
  "cnt (insert_priv g u v) k = cnt g k + (if k = (u, v) then 1 else 0)"
  by (simp add: cnt_def count_insert_priv)

lemma cnt_remove_priv:
  "cnt (remove_priv g u v) k = cnt g k - (if k = (u, v) then 1 else 0)"
  by (simp add: cnt_def count_remove_priv)

lemma keys_insert_priv: "keys_of (insert_priv g u v) = insert (u, v) (keys_of g)"
  by (simp add: keys_of_def dom_insert_priv)

lemma keys_remove_priv:
  "keys_of (remove_priv g u v) =
     (if cnt g (u, v) = 1 then keys_of g - {(u, v)} else insert (u, v) (keys_of g))"
  by (simp add: keys_of_def cnt_def dom_remove_priv)

lemma directed_insert_sg [simp]: "sw_directed (insert_sg g u v) = sw_directed g"
  by (simp add: insert_sg_def Let_def)

lemma directed_remove_sg [simp]: "sw_directed (remove_sg g u v) = sw_directed g"
  by (simp add: remove_sg_def Let_def)

lemma cnt_insert_sg:
  "cnt (insert_sg g u v) (a, b) = cnt g (a, b) + (if a = u \<and> b = v then 1 else 0)
     + (if \<not> sw_directed g \<and> u \<noteq> v \<and> a = v \<and> b = u then 1 else 0)"
  by (simp add: insert_sg_def Let_def cnt_insert_priv)

lemma cnt_remove_sg:
  "cnt (remove_sg g u v) (a, b) = cnt g (a, b) - (if a = u \<and> b = v then 1 else 0)
     - (if \<not> sw_directed g \<and> u \<noteq> v \<and> a = v \<and> b = u then 1 else 0)"
  by (simp add: remove_sg_def Let_def cnt_remove_priv)

lemma cnt_insert_sg_ge: "cnt g k \<le> cnt (insert_sg g u v) k"
  by (cases k) (simp add: cnt_insert_sg)

lemma cnt_insert_sg_new:
  "k = (u, v) \<or> (\<not> sw_directed g \<and> u \<noteq> v \<and> k = (v, u)) \<Longrightarrow> cnt g k < cnt (insert_sg g u v) k"
  by (cases k) (auto simp add: cnt_insert_sg)

lemma distinct_insert_sg:
  "distinct (map fst (sw_edges g)) \<Longrightarrow> distinct (map fst (sw_edges (insert_sg g u v)))"
  by (simp add: insert_sg_def Let_def distinct_insert_priv)

lemma distinct_remove_sg:
  "distinct (map fst (sw_edges g)) \<Longrightarrow> distinct (map fst (sw_edges (remove_sg g u v)))"
  by (simp add: remove_sg_def Let_def distinct_remove_priv)

lemma keys_insert_sg:
  "keys_of (insert_sg g u v) =
     (if \<not> sw_directed g \<and> u \<noteq> v then insert (v, u) (insert (u, v) (keys_of g))
      else insert (u, v) (keys_of g))"
  by (simp add: insert_sg_def Let_def keys_insert_priv)

lemma keys_remove_sg_subset: "keys_of (remove_sg g u v) \<subseteq> insert (u, v) (insert (v, u) (keys_of g))"
  by (auto simp: remove_sg_def Let_def keys_remove_priv split: if_splits)

lemma keys_remove_sg_purged:
  "cnt (remove_sg g u v) k = 0 \<Longrightarrow> (\<forall>k \<in> keys_of g. 0 < cnt g k) \<Longrightarrow> k \<notin> keys_of (remove_sg g u v)"
  by (auto simp: remove_sg_def Let_def keys_remove_priv cnt_remove_priv split: if_splits)

lemma cnt_nonneg: "\<forall>k \<in> keys_of g. 0 < cnt g k \<Longrightarrow> 0 \<le> cnt g k"
  by (cases "k \<in> keys_of g") (auto simp: cnt_notin_keys intro: less_imp_le)

lemma wf_insert_sg: "wf g \<Longrightarrow> wf (insert_sg g u v)"
proof -
  assume w: "wf g"
  then have d: "distinct (map fst (sw_edges g))" and p: "\<forall>k \<in> keys_of g. 0 < cnt g k"
    and s: "sw_directed g \<or> (\<forall>u v. cnt g (u, v) = cnt g (v, u))"
    by (simp_all add: wf_iff)
  have nn: "0 \<le> cnt g k" for k using p by (rule cnt_nonneg)
  have "\<forall>k \<in> keys_of (insert_sg g u v). 0 < cnt (insert_sg g u v) k"
  proof
    fix k assume k: "k \<in> keys_of (insert_sg g u v)"
    show "0 < cnt (insert_sg g u v) k"
    proof (cases "k \<in> keys_of g")
      case True
      with p have "0 < cnt g k" by blast
      then show ?thesis using cnt_insert_sg_ge [of g k u v] by simp
    next
      case False
      with k have "k = (u, v) \<or> (\<not> sw_directed g \<and> u \<noteq> v \<and> k = (v, u))"
        by (auto simp: keys_insert_sg split: if_splits)
      then show ?thesis using nn [of k] cnt_insert_sg_new [of k u v g] by simp
    qed
  qed
  moreover have "sw_directed g \<or> (\<forall>a b. cnt (insert_sg g u v) (a, b) = cnt (insert_sg g u v) (b, a))"
  proof (cases "sw_directed g")
    case True
    then show ?thesis by simp
  next
    case False
    have "cnt (insert_sg g u v) (a, b) = cnt (insert_sg g u v) (b, a)" for a b
    proof -
      from s False have "cnt g (a, b) = cnt g (b, a)" by blast
      then show ?thesis using False
        by (cases "a = u \<and> b = v"; cases "a = v \<and> b = u"; cases "u = v")
           (auto simp: cnt_insert_sg)
    qed
    then show ?thesis by blast
  qed
  ultimately show ?thesis using d by (simp add: wf_iff distinct_insert_sg)
qed

lemma wf_remove_sg: "wf g \<Longrightarrow> 0 < cnt g (u, v) \<Longrightarrow> wf (remove_sg g u v)"
proof -
  assume w: "wf g" and c: "0 < cnt g (u, v)"
  then have d: "distinct (map fst (sw_edges g))" and p: "\<forall>k \<in> keys_of g. 0 < cnt g k"
    and s: "sw_directed g \<or> (\<forall>u v. cnt g (u, v) = cnt g (v, u))"
    by (simp_all add: wf_iff)
  have nn: "0 \<le> cnt g k" for k using p by (rule cnt_nonneg)
  have c': "0 < cnt g (v, u)" if "\<not> sw_directed g"
  proof -
    from s that have "cnt g (u, v) = cnt g (v, u)" by blast
    with c show ?thesis by simp
  qed
  have ge: "0 \<le> cnt (remove_sg g u v) k" for k
  proof -
    obtain a b where k: "k = (a, b)" by (cases k)
    have "0 \<le> cnt g (a, b) - (if a = u \<and> b = v then 1 else 0)
        - (if \<not> sw_directed g \<and> u \<noteq> v \<and> a = v \<and> b = u then 1 else 0)"
      using nn [of "(a, b)"] c c'
      by (cases "a = u \<and> b = v"; cases "a = v \<and> b = u"; cases "sw_directed g"; cases "u = v")
         auto
    then show ?thesis unfolding k by (simp only: cnt_remove_sg)
  qed
  have "\<forall>k \<in> keys_of (remove_sg g u v). 0 < cnt (remove_sg g u v) k"
  proof
    fix k assume k: "k \<in> keys_of (remove_sg g u v)"
    have "cnt (remove_sg g u v) k \<noteq> 0" using keys_remove_sg_purged [OF _ p] k by blast
    with ge [of k] show "0 < cnt (remove_sg g u v) k" by simp
  qed
  moreover have "sw_directed g \<or> (\<forall>a b. cnt (remove_sg g u v) (a, b) = cnt (remove_sg g u v) (b, a))"
  proof (cases "sw_directed g")
    case True
    then show ?thesis by simp
  next
    case False
    have "cnt (remove_sg g u v) (a, b) = cnt (remove_sg g u v) (b, a)" for a b
    proof -
      from s False have "cnt g (a, b) = cnt g (b, a)" by blast
      then show ?thesis using False
        by (cases "a = u \<and> b = v"; cases "a = v \<and> b = u"; cases "u = v")
           (auto simp: cnt_remove_sg)
    qed
    then show ?thesis by blast
  qed
  ultimately show ?thesis using d by (simp add: wf_iff distinct_remove_sg)
qed

lemma total_filter:
  "total w (filter (\<lambda>(k, n). Q k) c) = total (\<lambda>k. if Q k then w k else 0) c"
  by (induction c) (auto simp: total_def)

lemma length_filter_elements:
  "list_all (\<lambda>(k, n). 0 \<le> n) c \<Longrightarrow>
   int (length (filter P (elements c))) = total (\<lambda>k. if P k then 1 else 0) c"
  by (induction c) (auto simp: total_def elements_def)

lemma length_filter_sort: "length (filter P (sort xs)) = length (filter P xs)"
  by (simp add: filter_sort)

definition canon :: "bool \<Rightarrow> key \<Rightarrow> bool" where
  "canon d k \<longleftrightarrow> d \<or> fst k \<le> snd k"

definition w_out :: "bool \<Rightarrow> vertex \<Rightarrow> key \<Rightarrow> int" where
  "w_out d v k = (if canon d k \<and> fst k = v then 1 else 0)"

definition w_in :: "bool \<Rightarrow> vertex \<Rightarrow> key \<Rightarrow> int" where
  "w_in d v k = (if canon d k \<and> snd k = v then 1 else 0)"

lemma nonneg_filter:
  "list_all (\<lambda>(k, n). 0 < n) c \<Longrightarrow> list_all (\<lambda>(k, n). (0::int) \<le> n) (filter Q c)"
  by (induction c) auto

lemma out_degree_total:
  "wf g \<Longrightarrow> out_degree g v = total (w_out (sw_directed g) v) (sw_edges g)"
proof -
  assume "wf g"
  then have p: "list_all (\<lambda>(k, n). 0 < n) (sw_edges g)" by (simp add: wf_def)
  let ?Q = "\<lambda>(k, n::int). sw_directed g \<or> fst k \<le> snd k"
  have Q: "?Q = (\<lambda>(k, n). canon (sw_directed g) k)" by (simp add: canon_def)
  have "out_degree g v = int (length (filter (\<lambda>e. fst e = v) (elements (filter ?Q (sw_edges g)))))"
    by (simp add: out_degree_def get_edges_def length_filter_sort)
  also have "\<dots> = total (\<lambda>k. if fst k = v then 1 else 0) (filter ?Q (sw_edges g))"
    by (rule length_filter_elements) (rule nonneg_filter [OF p])
  also have "\<dots> = total (w_out (sw_directed g) v) (sw_edges g)"
    unfolding Q total_filter by (rule arg_cong [where f = "\<lambda>w. total w (sw_edges g)"])
      (auto simp: w_out_def fun_eq_iff)
  finally show ?thesis .
qed

lemma in_degree_total:
  "wf g \<Longrightarrow> in_degree g v = total (w_in (sw_directed g) v) (sw_edges g)"
proof -
  assume "wf g"
  then have p: "list_all (\<lambda>(k, n). 0 < n) (sw_edges g)" by (simp add: wf_def)
  let ?Q = "\<lambda>(k, n::int). sw_directed g \<or> fst k \<le> snd k"
  have Q: "?Q = (\<lambda>(k, n). canon (sw_directed g) k)" by (simp add: canon_def)
  have "in_degree g v = int (length (filter (\<lambda>e. snd e = v) (elements (filter ?Q (sw_edges g)))))"
    by (simp add: in_degree_def get_edges_def length_filter_sort)
  also have "\<dots> = total (\<lambda>k. if snd k = v then 1 else 0) (filter ?Q (sw_edges g))"
    by (rule length_filter_elements) (rule nonneg_filter [OF p])
  also have "\<dots> = total (w_in (sw_directed g) v) (sw_edges g)"
    unfolding Q total_filter by (rule arg_cong [where f = "\<lambda>w. total w (sw_edges g)"])
      (auto simp: w_in_def fun_eq_iff)
  finally show ?thesis .
qed

lemma total_insert_sg:
  "distinct (map fst (sw_edges g)) \<Longrightarrow>
   total w (sw_edges (insert_sg g u v)) =
     total w (sw_edges g) + w (u, v) + (if \<not> sw_directed g \<and> u \<noteq> v then w (v, u) else 0)"
  by (simp add: insert_sg_def Let_def total_insert_priv distinct_insert_priv)

lemma total_remove_sg:
  "distinct (map fst (sw_edges g)) \<Longrightarrow>
   total w (sw_edges (remove_sg g u v)) =
     total w (sw_edges g) - w (u, v) - (if \<not> sw_directed g \<and> u \<noteq> v then w (v, u) else 0)"
  by (simp add: remove_sg_def Let_def total_remove_priv distinct_remove_priv)

text \<open>The contribution of one logical edge to the degree weights.\<close>

lemma w_out_directed: "w_out True a (u, v) = (if u = a then 1 else 0)"
  by (simp add: w_out_def canon_def)

lemma w_in_directed: "w_in True a (u, v) = (if v = a then 1 else 0)"
  by (simp add: w_in_def canon_def)

lemma w_undirected_edge:
  "w_out False a (u, v) + w_in False a (u, v) + (if u \<noteq> v then w_out False a (v, u) + w_in False a (v, u) else 0)
     = (if u = a then 1 else 0) + (if v = a then 1 else 0)"
  by (cases "u = a"; cases "v = a"; cases "u \<le> v"; cases "v \<le> u")
     (auto simp: w_out_def w_in_def canon_def)

definition ind :: "vertex \<Rightarrow> vertex \<Rightarrow> int" where
  "ind u a = (if u = a then 1 else 0)"

lemma out_degree_insert_sg:
  assumes "wf g" "sw_directed g"
  shows "out_degree (insert_sg g u v) a = out_degree g a + ind u a"
proof -
  have d: "distinct (map fst (sw_edges g))" using assms by (simp add: wf_def)
  have "out_degree (insert_sg g u v) a = total (w_out True a) (sw_edges (insert_sg g u v))"
    using out_degree_total [OF wf_insert_sg [OF assms(1)], of u v a] assms(2) by simp
  also have "\<dots> = total (w_out True a) (sw_edges g) + w_out True a (u, v)"
    using assms(2) by (simp add: total_insert_sg [OF d])
  finally show ?thesis using out_degree_total [OF assms(1), of a] assms(2)
    by (simp add: w_out_directed ind_def)
qed

lemma in_degree_insert_sg:
  assumes "wf g" "sw_directed g"
  shows "in_degree (insert_sg g u v) a = in_degree g a + ind v a"
proof -
  have d: "distinct (map fst (sw_edges g))" using assms by (simp add: wf_def)
  have "in_degree (insert_sg g u v) a = total (w_in True a) (sw_edges (insert_sg g u v))"
    using in_degree_total [OF wf_insert_sg [OF assms(1)], of u v a] assms(2) by simp
  also have "\<dots> = total (w_in True a) (sw_edges g) + w_in True a (u, v)"
    using assms(2) by (simp add: total_insert_sg [OF d])
  finally show ?thesis using in_degree_total [OF assms(1), of a] assms(2)
    by (simp add: w_in_directed ind_def)
qed

lemma out_degree_remove_sg:
  assumes "wf g" "sw_directed g" "0 < cnt g (u, v)"
  shows "out_degree (remove_sg g u v) a = out_degree g a - ind u a"
proof -
  have d: "distinct (map fst (sw_edges g))" using assms by (simp add: wf_def)
  have "out_degree (remove_sg g u v) a = total (w_out True a) (sw_edges (remove_sg g u v))"
    using out_degree_total [OF wf_remove_sg [OF assms(1,3)], of a] assms(2) by simp
  also have "\<dots> = total (w_out True a) (sw_edges g) - w_out True a (u, v)"
    using assms(2) by (simp add: total_remove_sg [OF d])
  finally show ?thesis using out_degree_total [OF assms(1), of a] assms(2)
    by (simp add: w_out_directed ind_def)
qed

lemma in_degree_remove_sg:
  assumes "wf g" "sw_directed g" "0 < cnt g (u, v)"
  shows "in_degree (remove_sg g u v) a = in_degree g a - ind v a"
proof -
  have d: "distinct (map fst (sw_edges g))" using assms by (simp add: wf_def)
  have "in_degree (remove_sg g u v) a = total (w_in True a) (sw_edges (remove_sg g u v))"
    using in_degree_total [OF wf_remove_sg [OF assms(1,3)], of a] assms(2) by simp
  also have "\<dots> = total (w_in True a) (sw_edges g) - w_in True a (u, v)"
    using assms(2) by (simp add: total_remove_sg [OF d])
  finally show ?thesis using in_degree_total [OF assms(1), of a] assms(2)
    by (simp add: w_in_directed ind_def)
qed

lemma total_add: "total (\<lambda>k. w1 k + w2 k) c = total w1 c + total w2 c"
  by (induction c) (auto simp: total_def algebra_simps)

lemma degree_total:
  "wf g \<Longrightarrow> degree g a = total (\<lambda>k. w_out (sw_directed g) a k + w_in (sw_directed g) a k) (sw_edges g)"
  by (simp add: degree_def out_degree_total in_degree_total total_add)

lemma degree_insert_sg:
  assumes "wf g" "\<not> sw_directed g"
  shows "degree (insert_sg g u v) a = degree g a + ind u a + ind v a"
proof -
  have d: "distinct (map fst (sw_edges g))" using assms by (simp add: wf_def)
  let ?w = "\<lambda>k. w_out False a k + w_in False a k"
  have "degree (insert_sg g u v) a = total ?w (sw_edges (insert_sg g u v))"
    using degree_total [OF wf_insert_sg [OF assms(1)], of u v a] assms(2) by simp
  also have "\<dots> = total ?w (sw_edges g) + ?w (u, v) + (if u \<noteq> v then ?w (v, u) else 0)"
    using assms(2) by (simp add: total_insert_sg [OF d])
  also have "\<dots> = total ?w (sw_edges g) + (ind u a + ind v a)"
    using w_undirected_edge [of a u v] by (simp add: ind_def)
  finally show ?thesis using degree_total [OF assms(1), of a] assms(2) by simp
qed

lemma degree_remove_sg:
  assumes "wf g" "\<not> sw_directed g" "0 < cnt g (u, v)"
  shows "degree (remove_sg g u v) a = degree g a - ind u a - ind v a"
proof -
  have d: "distinct (map fst (sw_edges g))" using assms by (simp add: wf_def)
  let ?w = "\<lambda>k. w_out False a k + w_in False a k"
  have "degree (remove_sg g u v) a = total ?w (sw_edges (remove_sg g u v))"
    using degree_total [OF wf_remove_sg [OF assms(1,3)], of a] assms(2) by simp
  also have "\<dots> = total ?w (sw_edges g) - ?w (u, v) - (if u \<noteq> v then ?w (v, u) else 0)"
    using assms(2) by (simp add: total_remove_sg [OF d])
  also have "\<dots> = total ?w (sw_edges g) - (ind u a + ind v a)"
    using w_undirected_edge [of a u v] by (simp add: ind_def)
  finally show ?thesis using degree_total [OF assms(1), of a] assms(2) by simp
qed

text \<open>The four mutations of an accepted switch.\<close>

definition swap4 :: "SwitchGraph \<Rightarrow> vertex \<Rightarrow> vertex \<Rightarrow> vertex \<Rightarrow> vertex \<Rightarrow> SwitchGraph" where
  "swap4 g x1 y1 x2 y2 =
     insert_sg (remove_sg (insert_sg (remove_sg g x1 y1) x1 y2) x2 y2) x2 y1"

lemma swap4_props:
  assumes w: "wf g" and c1: "0 < cnt g (x1, y1)" and c2: "0 < cnt g (x2, y2)"
    and ne: "x1 \<noteq> x2 \<or> y1 \<noteq> y2" and nm: "sw_directed g \<or> x2 \<noteq> y1 \<or> y2 \<noteq> x1"
  shows "wf (swap4 g x1 y1 x2 y2)"
    and "sw_directed g \<Longrightarrow> out_degree (swap4 g x1 y1 x2 y2) a = out_degree g a"
    and "sw_directed g \<Longrightarrow> in_degree (swap4 g x1 y1 x2 y2) a = in_degree g a"
    and "\<not> sw_directed g \<Longrightarrow> degree (swap4 g x1 y1 x2 y2) a = degree g a"
proof -
  let ?g1 = "remove_sg g x1 y1"
  let ?g2 = "insert_sg ?g1 x1 y2"
  let ?g3 = "remove_sg ?g2 x2 y2"
  have w1: "wf ?g1" using w c1 by (rule wf_remove_sg)
  have w2: "wf ?g2" using w1 by (rule wf_insert_sg)
  have "cnt ?g1 (x2, y2) = cnt g (x2, y2)"
    using ne nm by (cases "sw_directed g"; cases "x1 = y1") (auto simp: cnt_remove_sg)
  then have c3: "0 < cnt ?g2 (x2, y2)"
    using c2 cnt_insert_sg_ge [of ?g1 "(x2, y2)" x1 y2] by simp
  have w3: "wf ?g3" using w2 c3 by (rule wf_remove_sg)
  show "wf (swap4 g x1 y1 x2 y2)" unfolding swap4_def using w3 by (rule wf_insert_sg)
  show "out_degree (swap4 g x1 y1 x2 y2) a = out_degree g a" if "sw_directed g"
    unfolding swap4_def
    by (simp add: out_degree_insert_sg out_degree_remove_sg w w1 w2 w3 c1 c3 that)
  show "in_degree (swap4 g x1 y1 x2 y2) a = in_degree g a" if "sw_directed g"
    unfolding swap4_def
    by (simp add: in_degree_insert_sg in_degree_remove_sg w w1 w2 w3 c1 c3 that)
  show "degree (swap4 g x1 y1 x2 y2) a = degree g a" if "\<not> sw_directed g"
    unfolding swap4_def
    by (simp add: degree_insert_sg degree_remove_sg w w1 w2 w3 c1 c3 that)
qed

lemma set_elements: "set (elements c) = {k. \<exists>n. (k, n) \<in> set c \<and> 0 < n}"
  by (induction c) (auto simp: elements_def)

lemma choices_pos:
  assumes "wf g" "choices (sw_edges g) r = Inr k"
  shows "0 < cnt g k"
proof -
  from assms(2) have ne: "elements (sw_edges g) \<noteq> []"
    and k: "k = elements (sw_edges g) ! (r mod length (elements (sw_edges g)))"
    by (auto simp: choices_def split: if_splits)
  from ne have "r mod length (elements (sw_edges g)) < length (elements (sw_edges g))" by simp
  then have "k \<in> set (elements (sw_edges g))" unfolding k by (rule nth_mem)
  then obtain n where n: "(k, n) \<in> set (sw_edges g)" "0 < n" by (auto simp: set_elements)
  from assms(1) have "distinct (map fst (sw_edges g))" by (simp add: wf_def)
  with n(1) have "map_of (sw_edges g) k = Some n" by simp
  with n(2) show ?thesis by (simp add: cnt_def count_def)
qed

definition drawn :: "SwitchGraph \<Rightarrow> key \<Rightarrow> key" where
  "drawn g k = (if sw_directed g then k else sorted_pair k)"

lemma drawn_pos:
  assumes "wf g" "0 < cnt g k"
  shows "0 < cnt g (drawn g k)"
proof (cases "sw_directed g \<or> fst k \<le> snd k")
  case True
  then show ?thesis using assms(2) by (auto simp: drawn_def sorted_pair_def)
next
  case False
  from assms(1) False have "cnt g (snd k, fst k) = cnt g (fst k, snd k)"
    unfolding wf_iff by blast
  then show ?thesis using False assms(2) by (simp add: drawn_def sorted_pair_def)
qed

lemma drawn_sorted: "\<not> sw_directed g \<Longrightarrow> fst (drawn g k) \<le> snd (drawn g k)"
  by (simp add: drawn_def sorted_pair_def)

lemma switch_unfold:
  "switch g sl re r1 r2 =
     (case choices (sw_edges g) r1 of
        Inl e \<Rightarrow> Inl e
      | Inr first \<Rightarrow>
         (case choices (sw_edges g) r2 of
            Inl e \<Rightarrow> Inl e
          | Inr second \<Rightarrow>
             (let x1 = fst (drawn g first); y1 = snd (drawn g first);
                  x2 = fst (drawn g second); y2 = snd (drawn g second)
              in if sl \<and> (x1 = x2 \<or> y1 = y2) then Inr (False, g)
                 else if \<not> sl \<and> {x1, y1} \<inter> {x2, y2} \<noteq> {} then Inr (False, g)
                 else if \<not> re \<and> (has_key g (x1, y2) \<or> has_key g (x2, y1))
                   then Inr (False, g)
                 else Inr (True, swap4 g x1 y1 x2 y2))))"
  unfolding switch_def drawn_def swap4_def
  by (cases "choices (sw_edges g) r1"; cases "choices (sw_edges g) r2")
     (simp_all add: Let_def split_beta split del: if_split)

lemma switch_False: "switch g sl re r1 r2 = Inr (False, g') \<Longrightarrow> g' = g"
  unfolding switch_unfold Let_def by (simp split: sum.splits if_splits)

lemma switch_True:
  assumes "wf g" "switch g sl re r1 r2 = Inr (True, g')"
  obtains x1 y1 x2 y2 where "g' = swap4 g x1 y1 x2 y2" "0 < cnt g (x1, y1)" "0 < cnt g (x2, y2)"
    "x1 \<noteq> x2 \<or> y1 \<noteq> y2" "sw_directed g \<or> x2 \<noteq> y1 \<or> y2 \<noteq> x1"
proof -
  from assms(2) obtain first second where f: "choices (sw_edges g) r1 = Inr first"
    and s: "choices (sw_edges g) r2 = Inr second"
    unfolding switch_unfold by (auto split: sum.splits)
  define x1 where "x1 = fst (drawn g first)"
  define y1 where "y1 = snd (drawn g first)"
  define x2 where "x2 = fst (drawn g second)"
  define y2 where "y2 = snd (drawn g second)"
  from assms(2) have g': "g' = swap4 g x1 y1 x2 y2"
    and c: "if sl then \<not> (x1 = x2 \<or> y1 = y2) else {x1, y1} \<inter> {x2, y2} = {}"
    unfolding switch_unfold f s x1_def y1_def x2_def y2_def Let_def
    by (auto split: if_splits)
  have p1: "0 < cnt g (x1, y1)" unfolding x1_def y1_def
    using drawn_pos [OF assms(1) choices_pos [OF assms(1) f]] by simp
  have p2: "0 < cnt g (x2, y2)" unfolding x2_def y2_def
    using drawn_pos [OF assms(1) choices_pos [OF assms(1) s]] by simp
  have ne: "x1 \<noteq> x2 \<or> y1 \<noteq> y2" using c by (cases sl) auto
  have nm: "sw_directed g \<or> x2 \<noteq> y1 \<or> y2 \<noteq> x1"
  proof (cases "sw_directed g")
    case True
    then show ?thesis by simp
  next
    case False
    then have "x1 \<le> y1" "x2 \<le> y2"
      unfolding x1_def y1_def x2_def y2_def by (simp_all add: drawn_sorted)
    then show ?thesis using c by (cases sl) auto
  qed
  from g' p1 p2 ne nm show ?thesis by (rule that)
qed

lemma switch_wf:
  assumes "wf g" "switch g sl re r1 r2 = Inr (b, g')"
  shows "wf g'"
proof (cases b)
  case False
  with assms show ?thesis by (auto dest: switch_False)
next
  case True
  with assms(2) have "switch g sl re r1 r2 = Inr (True, g')" by simp
  from switch_True [OF assms(1) this] show ?thesis
    using swap4_props(1) [OF assms(1)] by metis
qed

lemma switch_directed:
  assumes "switch g sl re r1 r2 = Inr (b, g')"
  shows "sw_directed g' = sw_directed g"
  using assms unfolding switch_unfold Let_def swap4_def
  by (auto split: sum.splits if_splits)

lemma switch_degrees:
  assumes "wf g" "switch g sl re r1 r2 = Inr (b, g')"
  shows "sw_directed g \<Longrightarrow> out_degree g' a = out_degree g a"
    and "sw_directed g \<Longrightarrow> in_degree g' a = in_degree g a"
    and "\<not> sw_directed g \<Longrightarrow> degree g' a = degree g a"
proof -
  have "(sw_directed g \<longrightarrow> out_degree g' a = out_degree g a \<and> in_degree g' a = in_degree g a)
      \<and> (\<not> sw_directed g \<longrightarrow> degree g' a = degree g a)"
  proof (cases b)
    case False
    with assms have "g' = g" by (auto dest: switch_False)
    then show ?thesis by simp
  next
    case True
    with assms(2) have "switch g sl re r1 r2 = Inr (True, g')" by simp
    from switch_True [OF assms(1) this] obtain x1 y1 x2 y2 where
      h: "g' = swap4 g x1 y1 x2 y2" "0 < cnt g (x1, y1)" "0 < cnt g (x2, y2)"
      "x1 \<noteq> x2 \<or> y1 \<noteq> y2" "sw_directed g \<or> x2 \<noteq> y1 \<or> y2 \<noteq> x1" by blast
    show ?thesis unfolding h(1)
      using swap4_props(2-4) [OF assms(1) h(2-5), of a] by blast
  qed
  then show "sw_directed g \<Longrightarrow> out_degree g' a = out_degree g a"
    and "sw_directed g \<Longrightarrow> in_degree g' a = in_degree g a"
    and "\<not> sw_directed g \<Longrightarrow> degree g' a = degree g a" by blast+
qed

section \<open>Claims about the multiset\<close>

text \<open>
  C2.  Whenever \<open>switch\<close> returns false, whatever the multiset, the flags and the two
  draws, the multiset is the one it was called on, and \<open>get_edges\<close> returns the same
  sequence as before the call.
\<close>

theorem switch_rejected_unchanged:
  "switch g self_loop repeated_edges r1 r2 = Inr (False, g') \<Longrightarrow>
     g' = g \<and> get_edges g' = get_edges g"
  by (auto dest: switch_False)

theorem switch_rejected_unchanged_witness:
  "switch \<lparr>sw_directed = True, sw_edges = [((1, 2), 1)]\<rparr> False False 0 0
     = Inr (False, \<lparr>sw_directed = True, sw_edges = [((1, 2), 1)]\<rparr>)
   \<and> get_edges \<lparr>sw_directed = True, sw_edges = [((1, 2), 1)]\<rparr> = [(1, 2)]"
proof -
  let ?g = "\<lparr>sw_directed = True, sw_edges = [((1, 2), 1)]\<rparr>"
  have e: "switch ?g False False 0 0 = Inr (False, ?g)"
    by (simp add: switch_def choices_def elements_def)
  have "get_edges ?g = [(1, 2)]"
    by (simp add: get_edges_def elements_def)
  with e switch_rejected_unchanged [OF e] show ?thesis by simp
qed

text \<open>
  C4.  \<open>edge_count\<close> keeps the test \<open>k[0] \<le> k[1]\<close> but drops the \<open>self.directed or\<close> of
  \<open>get_edges\<close>: on the directed multiset built from the single arc \<open>(2, 1)\<close> it returns 0
  while \<open>get_edges\<close> has one element.
\<close>

theorem edge_count_directed_mismatch:
  "edge_count (SwitchGraph_init [(2, 1)] True) = 0
   \<and> int (length (get_edges (SwitchGraph_init [(2, 1)] True))) = 1"
  by (simp add: edge_count_def get_edges_def elements_def SwitchGraph_init_def insert_sg_def
      insert_priv_def count_def Let_def)

text \<open>
  C5.  On a well-formed multiset, \<open>insert\<close>, \<open>remove\<close> of a pair of positive multiplicity
  and \<open>switch\<close> (accepted or rejected) all return a well-formed multiset: distinct keys,
  every stored count positive, and in undirected mode equal counts for \<open>(u, v)\<close> and
  \<open>(v, u)\<close> (lemma \<open>wf_iff\<close> spells the executable definition out).
\<close>

theorem mutations_preserve_wf:
  "wf g \<Longrightarrow>
     wf (insert_sg g u v)
     \<and> (0 < count (sw_edges g) (u, v) \<longrightarrow> wf (remove_sg g u v))
     \<and> (\<forall>self_loop repeated_edges r1 r2 b g'.
          switch g self_loop repeated_edges r1 r2 = Inr (b, g') \<longrightarrow> wf g')"
  using wf_insert_sg [of g u v] wf_remove_sg [of g u v] switch_wf [of g]
  by (auto simp: cnt_def)

theorem mutations_preserve_wf_witness:
  "wf (SwitchGraph_init [(1, 2), (3, 4)] False)
   \<and> wf (insert_sg (SwitchGraph_init [(1, 2), (3, 4)] False) 5 5)
   \<and> 0 < count (sw_edges (SwitchGraph_init [(1, 2), (3, 4)] False)) (1, 2)
   \<and> wf (remove_sg (SwitchGraph_init [(1, 2), (3, 4)] False) 1 2)
   \<and> switch (SwitchGraph_init [(1, 2), (3, 4)] False) False False 0 3
       = Inr (True, \<lparr>sw_directed = False,
                      sw_edges = [((1, 4), 1), ((4, 1), 1), ((3, 2), 1), ((2, 3), 1)]\<rparr>)
   \<and> wf \<lparr>sw_directed = False,
          sw_edges = [((1, 4), 1), ((4, 1), 1), ((3, 2), 1), ((2, 3), 1)]\<rparr>"
proof -
  let ?g = "SwitchGraph_init [(1, 2), (3, 4)] False"
  let ?g' = "\<lparr>sw_directed = False,
                sw_edges = [((1, 4), 1), ((4, 1), 1), ((3, 2), 1), ((2, 3), 1)]\<rparr>"
  have w: "wf ?g" by code_simp
  have c: "0 < count (sw_edges ?g) (1, 2)" by code_simp
  have s: "switch ?g False False 0 3 = Inr (True, ?g')" by code_simp
  from mutations_preserve_wf [OF w, of 5 5] have "wf (insert_sg ?g 5 5)" by blast
  moreover from mutations_preserve_wf [OF w, of 1 2] c have "wf (remove_sg ?g 1 2)" by blast
  moreover from mutations_preserve_wf [OF w, of 1 2] s have "wf ?g'" by blast
  ultimately show ?thesis using w c s by blast
qed

section \<open>Claims about the factories\<close>

text \<open>
  C6, as stated, fails: with \<open>point_count = 6\<close> and no extra edge the graph has 7 edges,
  not 6 (\<open>half = 3\<close>: two edges for each of \<open>i = 1, 2\<close>, then one for each of
  \<open>i = 1, 2, 3\<close>).
\<close>

theorem hack_spfa_6_not_6_edges:
  "map_sum id Graph_edge_count (hack_spfa 6 False 0 (\<lambda>k. 1) (\<lambda>t. 0)) = Inr 7
   \<and> map_sum id Graph_edge_count (hack_spfa 6 False 0 (\<lambda>k. 1) (\<lambda>t. 0)) \<noteq> Inr 6"
  by code_simp

text \<open>
  C6, amended.  Whatever the weights and the random source, \<open>hack_spfa\<close> with
  \<open>point_count = 6\<close> and \<open>extra_edge = 0\<close> returns a graph of exactly 7 edges: the two
  paths \<open>1-2-3\<close> and \<open>4-5-6\<close> over the halves and the cross-matching \<open>1-4\<close>, \<open>2-5\<close>,
  \<open>3-6\<close>, and no other edge.
\<close>

theorem hack_spfa_6_pattern:
  "map_sum id (\<lambda>g. (Graph_edge_count g, map (\<lambda>e. (start e, endv e)) (iterate_edges g)))
     (hack_spfa 6 False 0 weight_gen rnd)
   = Inr (7, [(1, 2), (1, 4), (2, 3), (2, 5), (3, 6), (4, 5), (5, 6)])"
  by code_simp

text \<open>
  C8.  \<open>graph\<close> with 3 vertices and 4 edges, no repeated edge, no self-loop, undirected,
  raises the capacity error (the maximum is 3), whatever the weights and the random
  source: the check is made before the graph is created and before any draw.
\<close>

theorem graph_3_4_infeasible:
  "graph 3 4 False False False weight_gen rnd
     = Some (Inl (Exception
        ''the number of edges of this kind of graph must be less than or equal to max_edge''))
   \<and> calc_max_edge 3 False False = 3"
  by (simp add: graph_def calc_max_edge_def)

text \<open>
  C7.  \<open>from_undirected_degree_sequence\<close> on \<open>[3, 3, 3, 3]\<close>, self-loops and repeated
  edges disallowed, returns a multiset with 6 canonical edges, one for every pair of
  distinct vertices of \<open>1 .. 4\<close>, in which every vertex has degree 3.
\<close>

theorem undirected_3333_complete:
  "\<exists>g. from_undirected_degree_sequence [3, 3, 3, 3] False False = Some (Inr g)
     \<and> edge_count g = 6
     \<and> get_edges g = [(1, 2), (1, 3), (1, 4), (2, 3), (2, 4), (3, 4)]
     \<and> degree g 1 = 3 \<and> degree g 2 = 3 \<and> degree g 3 = 3 \<and> degree g 4 = 3"
proof -
  let ?g = "\<lparr>sw_directed = False,
              sw_edges =
                [((4, 3), 1), ((3, 4), 1), ((4, 2), 1), ((2, 4), 1),
                 ((4, 1), 1), ((1, 4), 1), ((3, 2), 1), ((2, 3), 1),
                 ((3, 1), 1), ((1, 3), 1), ((2, 1), 1), ((1, 2), 1)]\<rparr>"
  have "from_undirected_degree_sequence [3, 3, 3, 3] False False = Some (Inr ?g)"
    by code_simp
  moreover have "edge_count ?g = 6" by code_simp
  moreover have "get_edges ?g = [(1, 2), (1, 3), (1, 4), (2, 3), (2, 4), (3, 4)]" by code_simp
  moreover have "degree ?g 1 = 3" "degree ?g 2 = 3" "degree ?g 3 = 3" "degree ?g 4 = 3"
    by code_simp+
  ultimately show ?thesis by blast
qed

section \<open>RangeQuery: the bounds of a generated query, and the limit of sampling\<close>

text \<open>
  A dimension is a range when \<open>cur_range\<close> reads two bounds from it (an integer or a
  non-empty sequence); it is valid when the lower bound is at most the upper bound,
  and strictly below it in mode \<open>less\<close>.  \<open>in_range\<close> is the property of the pair
  generated for a dimension.
\<close>

definition is_range :: "position \<Rightarrow> bool" where
  "is_range p = (case cur_range p of Inl e \<Rightarrow> False | Inr r \<Rightarrow> True)"

definition valid_range :: "RangeQueryRandomMode \<Rightarrow> position \<Rightarrow> bool" where
  "valid_range mode p =
     (case cur_range p of
        Inl e \<Rightarrow> False
      | Inr (lo, hi) \<Rightarrow> lo \<le> hi \<and> (mode = mode_less \<longrightarrow> lo < hi))"

definition in_range :: "RangeQueryRandomMode \<Rightarrow> position \<Rightarrow> int \<Rightarrow> int \<Rightarrow> bool" where
  "in_range mode p l r =
     (case cur_range p of
        Inl e \<Rightarrow> False
      | Inr (lo, hi) \<Rightarrow> lo \<le> l \<and> l \<le> r \<and> r \<le> hi \<and> (mode = mode_less \<longrightarrow> l < r))"

text \<open>
  In mode \<open>less\<close> the pair is sampled from the range object, which must be short enough
  for \<^verbatim>\<open>len\<close>; mode \<open>allow_equal\<close> draws with \<^verbatim>\<open>randint\<close> and has no such limit.
\<close>

definition sampleable :: "RangeQueryRandomMode \<Rightarrow> position \<Rightarrow> bool" where
  "sampleable mode p =
     (case cur_range p of
        Inl e \<Rightarrow> False
      | Inr (lo, hi) \<Rightarrow> mode = mode_allow_equal \<or> hi + 1 - lo \<le> maxsize)"

lemma randint_bounds:
  "lo \<le> hi \<Longrightarrow> \<exists>x. randint r lo hi = Inr x \<and> lo \<le> x \<and> x \<le> hi"
proof -
  assume le: "lo \<le> hi"
  then have pos: "0 < nat (hi + 1 - lo)" by simp
  have "int (r mod nat (hi + 1 - lo)) < int (nat (hi + 1 - lo))"
    using pos by (simp only: of_nat_less_iff mod_less_divisor)
  then have "int (r mod nat (hi + 1 - lo)) \<le> hi - lo" using le by simp
  then show ?thesis using le by (simp add: randint_def randrange_def)
qed

lemma set_remove_nth:
  assumes "distinct pool" "i < length pool"
  shows "set (take i pool @ drop (Suc i) pool) = set pool - {pool ! i}"
proof -
  have p: "pool = take i pool @ pool ! i # drop (Suc i) pool"
    using assms(2) by (rule id_take_nth_drop)
  have "distinct (take i pool @ pool ! i # drop (Suc i) pool)" using assms(1) p by simp
  then have "pool ! i \<notin> set (take i pool @ drop (Suc i) pool)" by auto
  moreover have "set pool = insert (pool ! i) (set (take i pool @ drop (Suc i) pool))"
    by (subst p) auto
  ultimately show ?thesis by auto
qed

lemma pick_two:
  assumes "distinct pool" "2 \<le> length pool"
  shows "\<exists>a b. pick rnd pool 2 = [a, b] \<and> a \<in> set pool \<and> b \<in> set pool \<and> a \<noteq> b"
proof -
  define i where "i = rnd 1 mod length pool"
  define rest where "rest = take i pool @ drop (Suc i) pool"
  define j where "j = rnd 0 mod length rest"
  have "0 < length pool" using assms(2) by (cases pool) auto
  then have i: "i < length pool" unfolding i_def by (rule mod_less_divisor)
  have lr: "length rest = length pool - 1" unfolding rest_def using i by simp
  then have "0 < length rest" using assms(2) by (cases rest) auto
  then have j: "j < length rest" unfolding j_def by (rule mod_less_divisor)
  have sr: "set rest = set pool - {pool ! i}" unfolding rest_def using assms(1) i by (rule set_remove_nth)
  have "rest ! j \<in> set rest" using j by (rule nth_mem)
  then have b: "rest ! j \<in> set pool" "rest ! j \<noteq> pool ! i" using sr by auto
  have "pick rnd pool 2 = [pool ! i, rest ! j]"
    by (simp add: numeral_2_eq_2 Let_def i_def rest_def j_def)
  then show ?thesis using b nth_mem [OF i] by auto
qed

lemma one_query_valid:
  assumes "valid_range mode p" "sampleable mode p"
  shows "\<exists>l r. one_query mode rnd p = Inr (l, r) \<and> in_range mode p l r"
proof -
  from assms(1) obtain lo hi where c: "cur_range p = Inr (lo, hi)" and le: "lo \<le> hi"
    and lt: "mode = mode_less \<longrightarrow> lo < hi"
    by (auto simp: valid_range_def split: sum.splits)
  show ?thesis
  proof (cases mode)
    case mode_less
    with lt have l: "lo < hi" by simp
    from assms(2) c mode_less have m: "\<not> maxsize < hi + 1 - lo"
      by (simp add: sampleable_def)
    have d: "distinct (py_range lo (hi + 1))" by (simp add: py_range_def)
    have n: "2 \<le> length (py_range lo (hi + 1))" using l by (simp add: py_range_def)
    from pick_two [OF d n, of rnd] obtain a b where
      ab: "pick rnd (py_range lo (hi + 1)) 2 = [a, b]" "a \<in> set (py_range lo (hi + 1))"
      "b \<in> set (py_range lo (hi + 1))" "a \<noteq> b" by blast
    from ab(2,3) have r: "lo \<le> a" "a \<le> hi" "lo \<le> b" "b \<le> hi" by (simp_all add: py_range_def)
    have s: "sample_range rnd lo (hi + 1) 2 = Inr [a, b]"
      using n ab(1) m by (simp add: sample_range_def sample_def)
    have "one_query mode rnd p = Inr (if b < a then (b, a) else (a, b))"
      using c l mode_less s by (simp add: one_query_def then_e_def)
    then show ?thesis using r ab(4) c mode_less by (auto simp: in_range_def)
  next
    case mode_allow_equal
    from randint_bounds [OF le, of "rnd 0"] obtain a where
      a: "randint (rnd 0) lo hi = Inr a" "lo \<le> a" "a \<le> hi" by blast
    from randint_bounds [OF le, of "rnd 1"] obtain b where
      b: "randint (rnd 1) lo hi = Inr b" "lo \<le> b" "b \<le> hi" by blast
    have "one_query mode rnd p = Inr (if b < a then (b, a) else (a, b))"
      using c le mode_allow_equal a(1) b(1) by (simp add: one_query_def then_e_def)
    then show ?thesis using a b c mode_allow_equal by (auto simp: in_range_def)
  qed
qed

lemma one_query_overflow:
  assumes "valid_range mode p" "\<not> sampleable mode p"
  shows "one_query mode rnd p = Inl OverflowError"
proof -
  from assms(1) obtain lo hi where c: "cur_range p = Inr (lo, hi)" and le: "lo \<le> hi"
    by (auto simp: valid_range_def split: sum.splits)
  from assms(2) c have m: "mode = mode_less" "maxsize < hi + 1 - lo"
    by (cases mode; simp add: sampleable_def)+
  from m(2) have "lo < hi" by (simp add: maxsize_def)
  then show ?thesis using c m
    by (simp add: one_query_def then_e_def sample_range_def)
qed

lemma one_query_invalid:
  assumes "is_range p" "\<not> valid_range mode p"
  shows "\<exists>msg. one_query mode rnd p = Inl (ValueError msg)"
proof -
  from assms(1) obtain lo hi where c: "cur_range p = Inr (lo, hi)"
    by (auto simp: is_range_def split: sum.splits)
  with assms(2) have "hi < lo \<or> (mode = mode_less \<and> lo = hi)"
    by (auto simp: valid_range_def)
  then show ?thesis using c by (auto simp: one_query_def then_e_def)
qed

lemma query_loop_valid:
  "list_all (valid_range mode) ps \<Longrightarrow> list_all (sampleable mode) ps \<Longrightarrow>
   \<exists>ls rs. query_loop mode rnd i ps q = Inr (fst q @ ls, snd q @ rs)
     \<and> length ls = length ps \<and> length rs = length ps
     \<and> (\<forall>j < length ps. in_range mode (ps ! j) (ls ! j) (rs ! j))"
proof (induction ps arbitrary: i q)
  case Nil
  then show ?case by simp
next
  case (Cons p ps)
  from Cons.prems have v: "valid_range mode p" and vs: "list_all (valid_range mode) ps"
    and f: "sampleable mode p" and fs: "list_all (sampleable mode) ps" by simp_all
  from one_query_valid [OF v f, of "\<lambda>j. rnd (2 * i + j)"] obtain l r where
    o: "one_query mode (\<lambda>j. rnd (2 * i + j)) p = Inr (l, r)" and b: "in_range mode p l r" by blast
  from Cons.IH [OF vs fs, of "Suc i" "(fst q @ [l], snd q @ [r])"] obtain ls rs where
    h: "query_loop mode rnd (Suc i) ps (fst q @ [l], snd q @ [r])
          = Inr (fst q @ [l] @ ls, snd q @ [r] @ rs)"
    "length ls = length ps" "length rs = length ps"
    "\<forall>j < length ps. in_range mode (ps ! j) (ls ! j) (rs ! j)" by auto
  have "query_loop mode rnd i (p # ps) q = Inr (fst q @ (l # ls), snd q @ (r # rs))"
    using o h(1) by simp
  moreover have "\<forall>j < length (p # ps). in_range mode ((p # ps) ! j) ((l # ls) ! j) ((r # rs) ! j)"
    using b h(4) by (auto simp: nth_Cons split: nat.splits)
  ultimately show ?case using h(2,3)
    by (intro exI [of _ "l # ls"] exI [of _ "r # rs"]) simp
qed

lemma query_loop_invalid:
  "list_all is_range ps \<Longrightarrow> list_all (sampleable mode) ps \<Longrightarrow>
   \<not> list_all (valid_range mode) ps \<Longrightarrow>
   \<exists>msg. query_loop mode rnd i ps q = Inl (ValueError msg)"
proof (induction ps arbitrary: i q)
  case Nil
  then show ?case by simp
next
  case (Cons p ps)
  show ?case
  proof (cases "valid_range mode p")
    case True
    from Cons.prems have "sampleable mode p" by simp
    from one_query_valid [OF True this, of "\<lambda>j. rnd (2 * i + j)"] obtain l r where
      o: "one_query mode (\<lambda>j. rnd (2 * i + j)) p = Inr (l, r)" by blast
    from Cons.prems True have "list_all is_range ps" "list_all (sampleable mode) ps"
      "\<not> list_all (valid_range mode) ps" by simp_all
    from Cons.IH [OF this, of "Suc i" "(fst q @ [l], snd q @ [r])"] o show ?thesis by simp
  next
    case False
    from Cons.prems have "is_range p" by simp
    from one_query_invalid [OF this False, of "\<lambda>j. rnd (2 * i + j)"] show ?thesis by auto
  qed
qed

text \<open>
  Within the limit of \<open>sampleable\<close> the generator does what its docstring says: when
  every dimension is a valid range it returns two lists as long as \<open>position_range\<close>
  with, in every dimension, \<open>lower \<le> query_l[i] \<le> query_r[i] \<le> upper\<close>, strictly
  \<open>query_l[i] < query_r[i]\<close> in mode \<open>less\<close>; when every dimension is a range and one of
  them is not valid, it raises \<open>ValueError\<close>.  Without a \<open>position_range\<close> it behaves as
  on \<open>[10]\<close>.
\<close>

lemma get_one_query_within_maxsize:
  "(list_all (valid_range mode) ps \<and> list_all (sampleable mode) ps \<longrightarrow>
      (\<exists>query_l query_r. get_one_query (Some ps) mode rnd = Inr (query_l, query_r)
         \<and> length query_l = length ps \<and> length query_r = length ps
         \<and> (\<forall>i < length ps. in_range mode (ps ! i) (query_l ! i) (query_r ! i))))
   \<and> (list_all is_range ps \<and> list_all (sampleable mode) ps
        \<and> \<not> list_all (valid_range mode) ps \<longrightarrow>
      (\<exists>msg. get_one_query (Some ps) mode rnd = Inl (ValueError msg)))
   \<and> get_one_query None mode rnd = get_one_query (Some [PInt 10]) mode rnd"
  using query_loop_valid [of mode ps rnd 0 "([], [])"]
    query_loop_invalid [of ps mode rnd 0 "([], [])"]
  by (simp add: get_one_query_def)

lemma get_one_query_small:
  "\<exists>query_l query_r.
      get_one_query (Some [PInt 5, PSeq [2, 9]]) mode_less (\<lambda>t. t) = Inr (query_l, query_r)
      \<and> length query_l = 2 \<and> length query_r = 2
      \<and> in_range mode_less (PInt 5) (query_l ! 0) (query_r ! 0)
      \<and> in_range mode_less (PSeq [2, 9]) (query_l ! 1) (query_r ! 1)"
proof -
  have v: "list_all (valid_range mode_less) [PInt 5, PSeq [2, 9]]"
    by (simp add: valid_range_def cur_range_def)
  have f: "list_all (sampleable mode_less) [PInt 5, PSeq [2, 9]]"
    by (simp add: sampleable_def cur_range_def maxsize_def)
  from get_one_query_within_maxsize [of mode_less "[PInt 5, PSeq [2, 9]]" "\<lambda>t. t"] v f
  obtain query_l query_r where
    q: "get_one_query (Some [PInt 5, PSeq [2, 9]]) mode_less (\<lambda>t. t) = Inr (query_l, query_r)"
      "length query_l = 2" "length query_r = 2"
      "\<forall>i < 2. in_range mode_less ([PInt 5, PSeq [2, 9]] ! i) (query_l ! i) (query_r ! i)"
    by auto
  from q(4) have "in_range mode_less (PInt 5) (query_l ! 0) (query_r ! 0)"
    "in_range mode_less (PSeq [2, 9]) (query_l ! 1) (query_r ! 1)"
    by (auto dest: spec [of _ 0] spec [of _ 1])
  with q(1-3) show ?thesis by blast
qed

text \<open>
  C10.  The claim promises a pair of lists for every valid range.  On the range
  \<open>(0, 2\<^sup>6\<^sup>3)\<close>, a valid one in both modes, mode \<open>less\<close> raises \<open>OverflowError\<close>, for every
  state of the random source: \<^verbatim>\<open>random.sample\<close> takes the length of a range of
  \<open>2\<^sup>6\<^sup>3 + 1\<close> values.  The docstring names two \<open>ValueError\<close>s and no other exception, and
  mode \<open>allow_equal\<close>, which draws with \<^verbatim>\<open>randint\<close>, returns a pair within the bounds on
  the same range.
\<close>

theorem get_one_query_less_overflow:
  "cur_range (PSeq [0, 2 ^ 63]) = Inr (0, 2 ^ 63)
   \<and> get_one_query (Some [PSeq [0, 2 ^ 63]]) mode_less rnd = Inl OverflowError
   \<and> (\<exists>l r. get_one_query (Some [PSeq [0, 2 ^ 63]]) mode_allow_equal rnd = Inr ([l], [r])
         \<and> 0 \<le> l \<and> l \<le> r \<and> r \<le> 2 ^ 63)"
proof -
  let ?p = "PSeq [0, 2 ^ 63]"
  have c: "cur_range ?p = Inr (0, 2 ^ 63)" by (simp add: cur_range_def)
  have v: "valid_range mode_less ?p" by (simp add: valid_range_def cur_range_def)
  have n: "\<not> sampleable mode_less ?p" by (simp add: sampleable_def cur_range_def maxsize_def)
  have o: "get_one_query (Some [?p]) mode_less rnd = Inl OverflowError"
    using one_query_overflow [OF v n, of "\<lambda>j. rnd (2 * 0 + j)"]
    by (simp add: get_one_query_def)
  have le: "(0 :: int) \<le> 2 ^ 63" by simp
  from randint_bounds [OF le, of "rnd 0"] obtain a where
    a: "randint (rnd 0) 0 (2 ^ 63) = Inr a" "0 \<le> a" "a \<le> 2 ^ 63" by blast
  from randint_bounds [OF le, of "rnd 1"] obtain b where
    b: "randint (rnd 1) 0 (2 ^ 63) = Inr b" "0 \<le> b" "b \<le> 2 ^ 63" by blast
  have "one_query mode_allow_equal (\<lambda>j. rnd (2 * 0 + j)) ?p
      = Inr (if b < a then (b, a) else (a, b))"
    using a(1) b(1) by (simp add: one_query_def then_e_def cur_range_def)
  then have "get_one_query (Some [?p]) mode_allow_equal rnd
      = Inr ([if b < a then b else a], [if b < a then a else b])"
    by (simp add: get_one_query_def)
  then have "\<exists>l r. get_one_query (Some [?p]) mode_allow_equal rnd = Inr ([l], [r])
         \<and> 0 \<le> l \<and> l \<le> r \<and> r \<le> 2 ^ 63"
    using a(2,3) b(2,3) by (cases "b < a") auto
  with c o show ?thesis by blast
qed

section \<open>Forests: edges and connected components\<close>

text \<open>
  In a graph whose edges all join a vertex to a smaller one, at most one such edge
  per vertex, following the edge of a vertex downwards ends in a vertex without one:
  its root.  \<open>climb\<close> follows \<open>k\<close> edges of the parent map \<open>par\<close>.
\<close>

fun climb :: "(vertex \<Rightarrow> vertex option) \<Rightarrow> nat \<Rightarrow> vertex \<Rightarrow> vertex" where
  "climb par 0 v = v"
| "climb par (Suc k) v = (case par v of None \<Rightarrow> v | Some u \<Rightarrow> climb par k u)"

definition root_of :: "(vertex \<Rightarrow> vertex option) \<Rightarrow> vertex \<Rightarrow> vertex" where
  "root_of par v = climb par (nat v) v"

definition parent_edges :: "(vertex \<Rightarrow> vertex option) \<Rightarrow> (vertex \<times> vertex) set" where
  "parent_edges par = {(u, i). par i = Some u}"

lemma climb_None: "par v = None \<Longrightarrow> climb par k v = v"
  by (cases k) simp_all

lemma climb_stable:
  assumes d: "\<And>i u. par i = Some u \<Longrightarrow> 1 \<le> u \<and> u < i"
  shows "nat v \<le> k \<Longrightarrow> climb par k v = climb par (nat v) v"
proof (induction "nat v" arbitrary: v k rule: less_induct)
  case less
  show ?case
  proof (cases "par v")
    case None
    then show ?thesis by (simp add: climb_None)
  next
    case (Some u)
    with d have u: "1 \<le> u" "u < v" by auto
    then obtain k' where k: "k = Suc k'" using less.prems by (cases k) auto
    obtain m where m: "nat v = Suc m" using u by (cases "nat v") auto
    have lt: "nat u < nat v" using u by simp
    have "nat u \<le> k'" using k less.prems lt by linarith
    from less.hyps [OF lt this] have a: "climb par k' u = climb par (nat u) u" .
    have "nat u \<le> m" using m lt by linarith
    from less.hyps [OF lt this] have b: "climb par m u = climb par (nat u) u" .
    show ?thesis using a b Some by (simp add: k m)
  qed
qed

lemma root_of_step:
  assumes d: "\<And>i u. par i = Some u \<Longrightarrow> 1 \<le> u \<and> u < i"
  shows "root_of par v = (case par v of None \<Rightarrow> v | Some u \<Rightarrow> root_of par u)"
proof (cases "par v")
  case None
  then show ?thesis by (simp add: root_of_def climb_None)
next
  case (Some u)
  with d have u: "1 \<le> u" "u < v" by auto
  obtain m where m: "nat v = Suc m" using u by (cases "nat v") auto
  have "nat u \<le> m" using m u by simp
  from climb_stable [OF d this] have "climb par m u = climb par (nat u) u" by simp
  then show ?thesis using Some by (simp add: root_of_def m)
qed

lemma root_of_connected:
  assumes d: "\<And>i u. par i = Some u \<Longrightarrow> 1 \<le> u \<and> u < i"
    and "(a, b) \<in> (parent_edges par \<union> (parent_edges par)\<inverse>)\<^sup>*"
  shows "root_of par a = root_of par b"
  using assms(2)
proof (induction rule: rtrancl_induct)
  case base
  show ?case by simp
next
  case (step y z)
  from step.hyps(2) have "par z = Some y \<or> par y = Some z" by (auto simp: parent_edges_def)
  then have "root_of par y = root_of par z"
    using root_of_step [OF d, where v = y] root_of_step [OF d, where v = z] by auto
  with step.IH show ?case by simp
qed

lemma root_of_reaches:
  assumes d: "\<And>i u. par i = Some u \<Longrightarrow> 1 \<le> u \<and> u < i"
  shows "1 \<le> v \<Longrightarrow> v \<le> n \<Longrightarrow>
    (v, root_of par v) \<in> (parent_edges par \<union> (parent_edges par)\<inverse>)\<^sup>*
    \<and> 1 \<le> root_of par v \<and> root_of par v \<le> n \<and> par (root_of par v) = None"
proof (induction "nat v" arbitrary: v rule: less_induct)
  case less
  show ?case
  proof (cases "par v")
    case None
    then show ?thesis using less.prems root_of_step [OF d, where v = v] by simp
  next
    case (Some u)
    with d have u: "1 \<le> u" "u < v" by auto
    have lt: "nat u < nat v" using u by simp
    have "u \<le> n" using u less.prems by simp
    from less.hyps [OF lt u(1) this] have
      ih: "(u, root_of par u) \<in> (parent_edges par \<union> (parent_edges par)\<inverse>)\<^sup>*"
      "1 \<le> root_of par u" "root_of par u \<le> n" "par (root_of par u) = None" by simp_all
    have r: "root_of par v = root_of par u" using root_of_step [OF d, where v = v] Some by simp
    have "(v, u) \<in> parent_edges par \<union> (parent_edges par)\<inverse>"
      using Some by (simp add: parent_edges_def)
    then have "(v, root_of par u) \<in> (parent_edges par \<union> (parent_edges par)\<inverse>)\<^sup>*"
      using ih(1) by (rule converse_rtrancl_into_rtrancl)
    then show ?thesis using ih r by simp
  qed
qed

lemma components_of_parent_map:
  fixes n :: int
  assumes d: "\<And>i u. par i = Some u \<Longrightarrow> 1 \<le> u \<and> u < i \<and> i \<le> n"
  defines "C \<equiv> (parent_edges par \<union> (parent_edges par)\<inverse>)\<^sup>*"
  shows "card ((\<lambda>v. {w \<in> {1..n}. (v, w) \<in> C}) ` {1..n}) = nat n - card (dom par)"
proof -
  have d': "\<And>i u. par i = Some u \<Longrightarrow> 1 \<le> u \<and> u < i" using d by blast
  let ?V = "{1..n}"
  let ?cls = "\<lambda>v. {w \<in> ?V. (v, w) \<in> C}"
  let ?R = "{v \<in> ?V. par v = None}"
  have symC: "(a, b) \<in> C \<Longrightarrow> (b, a) \<in> C" for a b
  proof -
    assume "(a, b) \<in> C"
    then have "(b, a) \<in> ((parent_edges par \<union> (parent_edges par)\<inverse>)\<inverse>)\<^sup>*"
      unfolding C_def by (simp add: rtrancl_converse)
    moreover have "(parent_edges par \<union> (parent_edges par)\<inverse>)\<inverse>
        = parent_edges par \<union> (parent_edges par)\<inverse>" by auto
    ultimately show ?thesis unfolding C_def by simp
  qed
  have transC: "(a, b) \<in> C \<Longrightarrow> (b, c) \<in> C \<Longrightarrow> (a, c) \<in> C" for a b c
    unfolding C_def by (rule rtrancl_trans)
  have cls_eq: "?cls a = ?cls b" if "(a, b) \<in> C" for a b
  proof -
    have "(b, a) \<in> C" using that by (rule symC)
    then show ?thesis using that transC by blast
  qed
  have img: "?cls ` ?V = ?cls ` ?R"
  proof
    show "?cls ` ?V \<subseteq> ?cls ` ?R"
    proof
      fix X assume "X \<in> ?cls ` ?V"
      then obtain v where v: "v \<in> ?V" "X = ?cls v" by blast
      from v(1) have "1 \<le> v" "v \<le> n" by simp_all
      from root_of_reaches [OF d' this] have
        r: "(v, root_of par v) \<in> C" "root_of par v \<in> ?R" unfolding C_def by simp_all
      from cls_eq [OF r(1)] v(2) have "X = ?cls (root_of par v)" by simp
      with r(2) show "X \<in> ?cls ` ?R" by blast
    qed
    show "?cls ` ?R \<subseteq> ?cls ` ?V" by blast
  qed
  have inj: "inj_on ?cls ?R"
  proof (rule inj_onI)
    fix a b assume a: "a \<in> ?R" and b: "b \<in> ?R" and e: "?cls a = ?cls b"
    have "(a, a) \<in> C" unfolding C_def by simp
    with a have "a \<in> ?cls a" by simp
    with e have "(b, a) \<in> C" by simp
    then have "root_of par b = root_of par a"
      unfolding C_def using root_of_connected [OF d', where a = b and b = a] by blast
    moreover have "root_of par a = a" using a root_of_step [OF d', where v = a] by simp
    moreover have "root_of par b = b" using b root_of_step [OF d', where v = b] by simp
    ultimately show "a = b" by simp
  qed
  have sub: "dom par \<subseteq> ?V"
  proof
    fix i assume "i \<in> dom par"
    then obtain u where "par i = Some u" by blast
    from d [OF this] show "i \<in> ?V" by simp
  qed
  have "?R = ?V - dom par" by auto
  then have "card ?R = card ?V - card (dom par)"
    using sub by (simp add: card_Diff_subset finite_subset [OF sub])
  then have "card ?R = nat n - card (dom par)" by simp
  moreover have "card (?cls ` ?V) = card ?R" unfolding img using inj by (rule card_image)
  ultimately show ?thesis by simp
qed

lemma add_edge_priv_in_range:
  assumes "0 \<le> x" "x < int (length (edges g))"
  shows "add_edge_priv g x y w =
    Inr (g\<lparr>edges := (edges g)[nat x := edges g ! nat x @ [\<lparr>start = x, endv = y, weight = w\<rparr>]]\<rparr>)"
  using assms by (simp add: add_edge_priv_def Let_def)

lemma iterate_edges_update:
  assumes "i < length (edges g)"
  shows "\<exists>pre post. iterate_edges g = pre @ post \<and>
    iterate_edges (g\<lparr>edges := (edges g)[i := edges g ! i @ [e]]\<rparr>)
      = pre @ (if start e \<le> endv e \<or> directed g then [e] else []) @ post"
proof -
  let ?F = "filter (\<lambda>edge. start edge \<le> endv edge \<or> directed g)"
  let ?B = "edges g"
  have B: "?B = take i ?B @ ?B ! i # drop (Suc i) ?B" using assms by (rule id_take_nth_drop)
  have U: "?B[i := ?B ! i @ [e]] = take i ?B @ (?B ! i @ [e]) # drop (Suc i) ?B"
    using assms by (rule upd_conv_take_nth_drop)
  let ?pre = "concat (map ?F (take i ?B)) @ ?F (?B ! i)"
  let ?post = "concat (map ?F (drop (Suc i) ?B))"
  have "iterate_edges g = concat (map ?F (take i ?B @ ?B ! i # drop (Suc i) ?B))"
    unfolding iterate_edges_def using B by simp
  then have 1: "iterate_edges g = ?pre @ ?post" by simp
  have 2: "iterate_edges (g\<lparr>edges := ?B[i := ?B ! i @ [e]]\<rparr>)
      = ?pre @ (if start e \<le> endv e \<or> directed g then [e] else []) @ ?post"
    unfolding iterate_edges_def U by simp
  from 1 2 show ?thesis by blast
qed

lemma add_edge_undirected:
  assumes "\<not> directed g" "0 \<le> x" "x < y" "y < int (length (edges g))"
  shows "\<exists>g' pre post. add_edge g x y w = Inr g' \<and> \<not> directed g'
    \<and> length (edges g') = length (edges g)
    \<and> iterate_edges g = pre @ post
    \<and> iterate_edges g' = pre @ [\<lparr>start = x, endv = y, weight = w\<rparr>] @ post"
proof -
  let ?e = "\<lparr>start = x, endv = y, weight = w\<rparr>"
  let ?e' = "\<lparr>start = y, endv = x, weight = w\<rparr>"
  let ?g1 = "g\<lparr>edges := (edges g)[nat x := edges g ! nat x @ [?e]]\<rparr>"
  let ?g2 = "?g1\<lparr>edges := (edges ?g1)[nat y := edges ?g1 ! nat y @ [?e']]\<rparr>"
  have x: "x < int (length (edges g))" using assms by simp
  have 1: "add_edge_priv g x y w = Inr ?g1" using assms(2) x by (rule add_edge_priv_in_range)
  have "0 \<le> y" "y < int (length (edges ?g1))" using assms by simp_all
  then have 2: "add_edge_priv ?g1 y x w = Inr ?g2" by (rule add_edge_priv_in_range)
  have a: "add_edge g x y w = Inr ?g2"
    using 1 2 assms(1,3) by (simp add: add_edge_def then_e_def)
  have "nat x < length (edges g)" using assms by simp
  from iterate_edges_update [OF this, of ?e] obtain pre post where
    p: "iterate_edges g = pre @ post" "iterate_edges ?g1 = pre @ [?e] @ post"
    using assms(3) by auto
  have "nat y < length (edges ?g1)" using assms by simp
  from iterate_edges_update [OF this, of ?e'] obtain pre' post' where
    q: "iterate_edges ?g1 = pre' @ post'" "iterate_edges ?g2 = pre' @ post'"
    using assms(1,3) by auto
  from p q have "iterate_edges ?g2 = pre @ [?e] @ post" by simp
  with a p(1) assms(1) show ?thesis by (intro exI [of _ ?g2] exI [of _ pre] exI [of _ post]) simp
qed

lemma inserted_props:
  assumes "xs = pre @ post" "ys = pre @ [e] @ post"
  shows "set ys = insert e (set xs)" and "length ys = Suc (length xs)"
    and "distinct (map f ys) \<longleftrightarrow> f e \<notin> f ` set xs \<and> distinct (map f xs)"
  using assms by auto

text \<open>
  The canonical edges of a tree or forest on \<open>1 .. m\<close>: every edge goes from a vertex
  to a larger one, and no two edges end in the same vertex.
\<close>

definition tree_like :: "int \<Rightarrow> Edge list \<Rightarrow> bool" where
  "tree_like m es \<longleftrightarrow>
     (\<forall>e \<in> set es. 1 \<le> start e \<and> start e < endv e \<and> endv e \<le> m) \<and> distinct (map endv es)"

lemma randrange_bounds:
  "a < b \<Longrightarrow> \<exists>x. randrange r a b = Inr x \<and> a \<le> x \<and> x < b"
proof -
  assume lt: "a < b"
  then have "0 < nat (b - a)" by simp
  then have "int (r mod nat (b - a)) < int (nat (b - a))"
    by (simp only: of_nat_less_iff mod_less_divisor)
  then have "int (r mod nat (b - a)) < b - a" using lt by simp
  then show ?thesis using lt by (simp add: randrange_def)
qed

lemma tree_loop:
  assumes "\<not> directed g" "int (length (edges g)) = n + 1" "tree_like m (iterate_edges g)"
    "int (length (iterate_edges g)) = m - 1" "1 \<le> m" "m \<le> n"
  shows "\<exists>g' k'. for_each [m + 1..n]
        (\<lambda>i s. then_e (default_father_gen frnd i) (\<lambda>u. add_weighted weight_gen u i s)) (g, k)
      = Inr (g', k')
    \<and> \<not> directed g' \<and> int (length (edges g')) = n + 1 \<and> tree_like n (iterate_edges g')
    \<and> int (length (iterate_edges g')) = n - 1"
  using assms
proof (induction "nat (n - m)" arbitrary: m g k)
  case 0
  then have "m = n" by simp
  with 0 show ?case by simp
next
  case (Suc d)
  let ?B = "\<lambda>i s. then_e (default_father_gen frnd i) (\<lambda>u. add_weighted weight_gen u i s)"
  from Suc.hyps(2) have lt: "m < n" by linarith
  then have up: "[m + 1..n] = (m + 1) # [m + 1 + 1..n]" by (simp add: upto_rec1)
  from randrange_bounds [of 1 "m + 1" "frnd (m + 1)"] Suc.prems(5) obtain u where
    u: "default_father_gen frnd (m + 1) = Inr u" "1 \<le> u" "u < m + 1"
    by (auto simp: default_father_gen_def)
  have "0 \<le> u" using u(2) by simp
  moreover have "m + 1 < int (length (edges g))" using Suc.prems(2) lt by simp
  ultimately obtain g' pre post where
    a: "add_edge g u (m + 1) (weight_gen k) = Inr g'" "\<not> directed g'"
      "length (edges g') = length (edges g)" "iterate_edges g = pre @ post"
      "iterate_edges g' = pre @ [\<lparr>start = u, endv = m + 1, weight = weight_gen k\<rparr>] @ post"
    using add_edge_undirected [OF Suc.prems(1) _ u(3), of "weight_gen k"] by blast
  let ?e = "\<lparr>start = u, endv = m + 1, weight = weight_gen k\<rparr>"
  have old: "\<forall>e \<in> set (iterate_edges g). 1 \<le> start e \<and> start e < endv e \<and> endv e \<le> m"
    and dis: "distinct (map endv (iterate_edges g))"
    using Suc.prems(3) by (simp_all add: tree_like_def)
  have notin: "endv ?e \<notin> endv ` set (iterate_edges g)"
  proof
    assume "endv ?e \<in> endv ` set (iterate_edges g)"
    then obtain e where "e \<in> set (iterate_edges g)" "endv e = m + 1" by auto
    with old show False by auto
  qed
  have t: "tree_like (m + 1) (iterate_edges g')"
    unfolding tree_like_def inserted_props(1) [OF a(4,5)] inserted_props(3) [OF a(4,5)]
    using old dis notin u by auto
  have l: "int (length (iterate_edges g')) = (m + 1) - 1"
    unfolding inserted_props(2) [OF a(4,5)] using Suc.prems(4) by simp
  have d: "d = nat (n - (m + 1))" using Suc.hyps(2) by linarith
  have le: "int (length (edges g')) = n + 1" using a(3) Suc.prems(2) by simp
  from Suc.hyps(1) [OF d a(2) le t l, of "Suc k"] Suc.prems(5) lt obtain g'' k'' where
    r: "for_each [m + 1 + 1..n] ?B (g', Suc k) = Inr (g'', k'')" "\<not> directed g''"
      "int (length (edges g'')) = n + 1" "tree_like n (iterate_edges g'')"
      "int (length (iterate_edges g'')) = n - 1" by auto
  have "?B (m + 1) (g, k) = Inr (g', Suc k)"
    using u(1) a(1) by (simp add: then_e_def add_weighted_def)
  then have "for_each [m + 1..n] ?B (g, k) = Inr (g'', k'')"
    unfolding up using r(1) by simp
  with r(2-5) show ?case by blast
qed

lemma tree_default:
  assumes "1 \<le> n"
  shows "\<exists>g. tree n 0 0 False weight_gen (default_father_gen frnd) = Inr g
    \<and> \<not> directed g \<and> int (length (edges g)) = n + 1 \<and> tree_like n (iterate_edges g)
    \<and> int (length (iterate_edges g)) = n - 1"
proof -
  let ?g0 = "Graph_init n False"
  have e0: "iterate_edges ?g0 = []" by (simp add: iterate_edges_def Graph_init_def)
  have "\<not> directed ?g0" "int (length (edges ?g0)) = n + 1" "tree_like 1 (iterate_edges ?g0)"
    "int (length (iterate_edges ?g0)) = 1 - 1"
    using assms by (simp_all add: e0 tree_like_def) (simp_all add: Graph_init_def)
  from tree_loop [OF this _ assms, of frnd weight_gen 0] obtain g' k' where
    r: "for_each [1 + 1..n]
        (\<lambda>i s. then_e (default_father_gen frnd i) (\<lambda>u. add_weighted weight_gen u i s)) (?g0, 0)
      = Inr (g', k')" "\<not> directed g'" "int (length (edges g')) = n + 1"
       "tree_like n (iterate_edges g')" "int (length (iterate_edges g')) = n - 1" by auto
  have "tree n 0 0 False weight_gen (default_father_gen frnd) = Inr g'"
    using assms r(1) by (simp add: tree_def py_int_def py_range_def then_e_def Let_def)
  with r(2-5) show ?thesis by blast
qed

lemma pick_props:
  "k \<le> length pool \<Longrightarrow> distinct (map f pool) \<Longrightarrow>
   length (pick rnd pool k) = k \<and> set (pick rnd pool k) \<subseteq> set pool
     \<and> distinct (map f (pick rnd pool k))"
proof (induction k arbitrary: pool)
  case 0
  then show ?case by simp
next
  case (Suc k)
  define i where "i = rnd k mod length pool"
  define rest where "rest = take i pool @ drop (Suc i) pool"
  have "0 < length pool" using Suc.prems(1) by (cases pool) auto
  then have i: "i < length pool" unfolding i_def by (rule mod_less_divisor)
  have p: "pool = take i pool @ pool ! i # drop (Suc i) pool" using i by (rule id_take_nth_drop)
  have "distinct (map f (take i pool @ pool ! i # drop (Suc i) pool))"
    using Suc.prems(2) p by simp
  then have dr: "distinct (map f rest)" and ni: "f (pool ! i) \<notin> f ` set rest"
    unfolding rest_def by auto
  have sr: "set rest \<subseteq> set pool" unfolding rest_def
    by (auto dest: in_set_takeD in_set_dropD)
  have "length rest = length pool - 1" unfolding rest_def using i by simp
  then have "k \<le> length rest" using Suc.prems(1) by simp
  from Suc.IH [OF this dr] have ih: "length (pick rnd rest k) = k"
    "set (pick rnd rest k) \<subseteq> set rest" "distinct (map f (pick rnd rest k))" by simp_all
  have e: "pick rnd pool (Suc k) = pool ! i # pick rnd rest k"
    by (simp add: Let_def i_def rest_def)
  have "f (pool ! i) \<notin> f ` set (pick rnd rest k)" using ni ih(2) by blast
  then show ?case unfolding e using ih sr nth_mem [OF i] by auto
qed

lemma build_loop:
  assumes "\<not> directed g" "int (length (edges g)) = n + 1"
    "\<forall>e \<in> set es. 1 \<le> start e \<and> start e < endv e \<and> endv e \<le> n"
  shows "\<exists>g'. for_each es (\<lambda>edge g. add_edge g (start edge) (endv edge) (weight edge)) g = Inr g'
    \<and> \<not> directed g' \<and> length (edges g') = length (edges g)
    \<and> set (iterate_edges g') = set (iterate_edges g) \<union> set es
    \<and> length (iterate_edges g') = length (iterate_edges g) + length es"
  using assms
proof (induction es arbitrary: g)
  case Nil
  then show ?case by simp
next
  case (Cons e es)
  let ?B = "\<lambda>edge g. add_edge g (start edge) (endv edge) (weight edge)"
  from Cons.prems(3) have e: "1 \<le> start e" "start e < endv e" "endv e \<le> n" by simp_all
  have "0 \<le> start e" using e(1) by simp
  moreover have "endv e < int (length (edges g))" using Cons.prems(2) e(3) by simp
  ultimately obtain g' pre post where
    a: "add_edge g (start e) (endv e) (weight e) = Inr g'" "\<not> directed g'"
      "length (edges g') = length (edges g)" "iterate_edges g = pre @ post"
      "iterate_edges g' = pre @ [\<lparr>start = start e, endv = endv e, weight = weight e\<rparr>] @ post"
    using add_edge_undirected [OF Cons.prems(1) _ e(2), of "weight e"] by blast
  have same: "\<lparr>start = start e, endv = endv e, weight = weight e\<rparr> = e" by simp
  have le: "int (length (edges g')) = n + 1" using a(3) Cons.prems(2) by simp
  from Cons.prems(3) have "\<forall>e \<in> set es. 1 \<le> start e \<and> start e < endv e \<and> endv e \<le> n" by simp
  from Cons.IH [OF a(2) le this] obtain g'' where
    r: "for_each es ?B g' = Inr g''" "\<not> directed g''" "length (edges g'') = length (edges g')"
      "set (iterate_edges g'') = set (iterate_edges g') \<union> set es"
      "length (iterate_edges g'') = length (iterate_edges g') + length es" by blast
  have "for_each (e # es) ?B g = Inr g''" using a(1) r(1) by simp
  moreover have "set (iterate_edges g'') = set (iterate_edges g) \<union> set (e # es)"
    using r(4) inserted_props(1) [OF a(4,5)] same by auto
  moreover have "length (iterate_edges g'') = length (iterate_edges g) + length (e # es)"
    using r(5) inserted_props(2) [OF a(4,5)] by simp
  ultimately show ?case using r(2,3) a(3) by auto
qed

lemma forest_built:
  assumes g: "\<not> directed g" "int (length (edges g)) = n + 1"
    and es: "set (iterate_edges g) = set es" "length (iterate_edges g) = length es"
    and t: "tree_like n es" and n: "0 \<le> n"
  shows "Graph_edge_count g = int (length es)"
    and "component_count g = nat n - length es"
proof -
  show "Graph_edge_count g = int (length es)" by (simp add: Graph_edge_count_def es(2))
  define par where "par = map_of (map (\<lambda>e. (endv e, start e)) es)"
  have dis: "distinct (map endv es)" using t by (simp add: tree_like_def)
  have dk: "distinct (map fst (map (\<lambda>e. (endv e, start e)) es))"
    using dis by (simp add: comp_def)
  have par_iff: "par i = Some u \<longleftrightarrow> (\<exists>e \<in> set es. endv e = i \<and> start e = u)" for i u
    unfolding par_def using map_of_eq_Some_iff [OF dk, of i u] by auto
  have d: "\<And>i u. par i = Some u \<Longrightarrow> 1 \<le> u \<and> u < i \<and> i \<le> n"
    using t by (auto simp: par_iff tree_like_def)
  have adj: "adjacent g = parent_edges par"
    unfolding adjacent_def parent_edges_def es(1) by (auto simp: par_iff)
  have V: "vertices g = {1..n}" using g(2) by (simp add: vertices_def)
  have "dom par = endv ` set es" by (auto simp: dom_def par_iff)
  then have cd: "card (dom par) = length es"
    using distinct_card [OF dis] by simp
  have "component_count g
      = card ((\<lambda>v. {w \<in> {1..n}. (v, w) \<in> (parent_edges par \<union> (parent_edges par)\<inverse>)\<^sup>*}) ` {1..n})"
    unfolding component_count_def component_of_def connected_def V adj ..
  also have "\<dots> = nat n - card (dom par)" using d by (rule components_of_parent_map)
  finally show "component_count g = nat n - length es" using cd by simp
qed

text \<open>
  C9.  For \<open>1 \<le> tree_count \<le> point_count\<close>, \<open>forest\<close> with the default keyword arguments
  (undirected, no chain or flower part, the default \<open>father_gen\<close>; any weights, any random
  source) returns a graph with exactly \<open>point_count - tree_count\<close> canonical edges and
  exactly \<open>tree_count\<close> connected components.  For \<open>tree_count\<close> outside
  \<open>[1, point_count]\<close> it raises \<open>ValueError\<close>, whatever the keyword arguments, before
  the tree is built.
\<close>

theorem forest_components:
  "(1 \<le> tree_count \<and> tree_count \<le> point_count \<longrightarrow>
      (\<exists>g. forest point_count tree_count 0 0 False weight_gen (default_father_gen frnd) rnd = Inr g
         \<and> Graph_edge_count g = point_count - tree_count
         \<and> int (component_count g) = tree_count))
   \<and> (tree_count < 1 \<or> point_count < tree_count \<longrightarrow>
        forest point_count tree_count chain flower directed_kw weight_gen father_gen rnd
          = Inl (ValueError ''tree_count must be between 1 and point_count''))"
proof (intro conjI impI)
  assume "tree_count < 1 \<or> point_count < tree_count"
  then show "forest point_count tree_count chain flower directed_kw weight_gen father_gen rnd
      = Inl (ValueError ''tree_count must be between 1 and point_count'')"
    by (auto simp: forest_def)
next
  assume k: "1 \<le> tree_count \<and> tree_count \<le> point_count"
  then have n: "1 \<le> point_count" by simp
  from tree_default [OF n, of weight_gen frnd] obtain tg where
    tg: "tree point_count 0 0 False weight_gen (default_father_gen frnd) = Inr tg"
      "\<not> directed tg" "int (length (edges tg)) = point_count + 1"
      "tree_like point_count (iterate_edges tg)"
      "int (length (iterate_edges tg)) = point_count - 1" by blast
  let ?tes = "iterate_edges tg"
  let ?m = "nat (point_count - tree_count)"
  define need_add where "need_add = pick rnd ?tes ?m"
  have m: "?m \<le> length ?tes" using tg(5) k by linarith
  have dis: "distinct (map endv ?tes)" using tg(4) by (simp add: tree_like_def)
  from pick_props [OF m dis, of rnd] have
    na: "length need_add = ?m" "set need_add \<subseteq> set ?tes" "distinct (map endv need_add)"
    unfolding need_add_def by simp_all
  have s: "sample rnd ?tes (int (length ?tes) - tree_count + 1) = Inr need_add"
    unfolding need_add_def sample_def using tg(5) k by simp
  have tl: "tree_like point_count need_add"
    using tg(4) na(2,3) unfolding tree_like_def by blast
  let ?g0 = "Graph_init point_count (directed tg)"
  have g0: "\<not> directed ?g0" "int (length (edges ?g0)) = point_count + 1"
    using tg(2) n by (simp_all add: Graph_init_def)
  have e0: "iterate_edges ?g0 = []" by (simp add: iterate_edges_def Graph_init_def)
  have "\<forall>e \<in> set need_add. 1 \<le> start e \<and> start e < endv e \<and> endv e \<le> point_count"
    using tl by (simp add: tree_like_def)
  from build_loop [OF g0 this] obtain g where
    g: "for_each need_add (\<lambda>edge g. add_edge g (start edge) (endv edge) (weight edge)) ?g0 = Inr g"
      "\<not> directed g" "length (edges g) = length (edges ?g0)"
      "set (iterate_edges g) = set need_add" "length (iterate_edges g) = length need_add"
    by (auto simp: e0)
  have f: "forest point_count tree_count 0 0 False weight_gen (default_father_gen frnd) rnd = Inr g"
    using k tg(1) s g(1) by (simp add: forest_def then_e_def Let_def)
  have le: "int (length (edges g)) = point_count + 1" using g(3) g0(2) by simp
  have "0 \<le> point_count" using n by simp
  from forest_built [OF g(2) le g(4,5) tl this] na(1)
  have ec: "Graph_edge_count g = int (nat (point_count - tree_count))"
    and cc: "component_count g = nat point_count - nat (point_count - tree_count)" by simp_all
  have "nat point_count - nat (point_count - tree_count) = nat tree_count"
    using k by linarith
  with ec cc k have "Graph_edge_count g = point_count - tree_count"
    "int (component_count g) = tree_count" by simp_all
  with f show "\<exists>g. forest point_count tree_count 0 0 False weight_gen (default_father_gen frnd) rnd
        = Inr g
      \<and> Graph_edge_count g = point_count - tree_count \<and> int (component_count g) = tree_count"
    by blast
qed

theorem forest_components_witness:
  "(1::int) \<le> 2 \<and> (2::int) \<le> 5
   \<and> (\<exists>g. forest 5 2 0 0 False (\<lambda>k. 1) (default_father_gen (\<lambda>c. 0)) (\<lambda>t. 0) = Inr g
         \<and> Graph_edge_count g = 5 - 2 \<and> int (component_count g) = 2)
   \<and> forest 5 0 0 0 False (\<lambda>k. 1) (default_father_gen (\<lambda>c. 0)) (\<lambda>t. 0)
        = Inl (ValueError ''tree_count must be between 1 and point_count'')"
  using forest_components [of 2 5 "\<lambda>k. 1" "\<lambda>c. 0" "\<lambda>t. 0"]
    forest_components [of 0 5 "\<lambda>k. 1" "\<lambda>c. 0" "\<lambda>t. 0" 0 0 False "default_father_gen (\<lambda>c. 0)"]
  by simp

section \<open>Directed realization: the greedy loops keep the demands\<close>

lemma sum_list_update_int:
  fixes xs :: "int list"
  shows "i < length xs \<Longrightarrow> sum_list (xs[i := y]) = sum_list xs - xs ! i + y"
proof (induction xs arbitrary: i)
  case Nil
  then show ?case by simp
next
  case (Cons x xs)
  then show ?case by (cases i) simp_all
qed

lemma sum_list_map_update:
  fixes f :: "'a \<Rightarrow> int"
  shows "i < length xs \<Longrightarrow>
    sum_list (map f (xs[i := y])) = sum_list (map f xs) - f (xs ! i) + f y"
  by (simp add: map_update sum_list_update_int)

lemma sum_list_map_insort:
  fixes f :: "'a::linorder \<Rightarrow> int"
  shows "sum_list (map f (insort x xs)) = f x + sum_list (map f xs)"
  by (induction xs) simp_all

lemma sum_list_map_sort:
  fixes f :: "'a::linorder \<Rightarrow> int"
  shows "sum_list (map f (sort xs)) = sum_list (map f xs)"
  by (induction xs) (simp_all add: sum_list_map_insort)

lemma sum_list_map_sort_reverse:
  fixes f :: "'a::linorder \<Rightarrow> int"
  shows "sum_list (map f (sort_reverse xs)) = sum_list (map f xs)"
  by (simp add: sort_reverse_def sum_list_map_sort sum_list_rev rev_map [symmetric])

lemma set_sort_reverse [simp]: "set (sort_reverse xs) = set xs"
  by (simp add: sort_reverse_def)

lemma length_sort_reverse [simp]: "length (sort_reverse xs) = length xs"
  by (simp add: sort_reverse_def)

lemma count_sort_reverse:
  "length (filter P (sort_reverse xs)) = length (filter P xs)"
  by (simp add: sort_reverse_def rev_filter [symmetric] filter_sort)

lemma count_update_less:
  "i < length xs \<Longrightarrow> P (xs ! i) \<Longrightarrow> \<not> P y \<Longrightarrow>
    length (filter P (xs[i := y])) < length (filter P xs)"
proof (induction xs arbitrary: i)
  case Nil
  then show ?case by simp
next
  case (Cons x xs)
  show ?case
  proof (cases i)
    case 0
    with Cons.prems show ?thesis by simp
  next
    case (Suc k)
    with Cons.prems have "length (filter P (xs[k := y])) < length (filter P xs)"
      by (intro Cons.IH) simp_all
    with Suc show ?thesis by simp
  qed
qed

text \<open>What is left of the demands of a vertex in the working list.\<close>

definition in_sum :: "dentry list \<Rightarrow> vertex \<Rightarrow> int" where
  "in_sum ds v = sum_list (map (\<lambda>t. if d_vn t = v then d_in t else 0) ds)"

definition out_sum :: "dentry list \<Rightarrow> vertex \<Rightarrow> int" where
  "out_sum ds v = sum_list (map (\<lambda>t. if d_vn t = v then d_out t else 0) ds)"

text \<open>
  The invariant of the directed realization: what the multiset has plus what the list
  still demands is the demand of the input, the sink \<open>vto\<close> holding \<open>in_deg\<close> of its own.
\<close>

definition dir_inv ::
  "(vertex \<Rightarrow> int) \<Rightarrow> (vertex \<Rightarrow> int) \<Rightarrow> vertex \<Rightarrow> int \<Rightarrow> dentry list \<Rightarrow> SwitchGraph \<Rightarrow> bool" where
  "dir_inv Din Dout vto in_deg ds g \<longleftrightarrow>
     wf g \<and> sw_directed g \<and> ds \<noteq> [] \<and> 0 \<le> in_deg
     \<and> (\<forall>t \<in> set ds. 0 \<le> d_out t \<and> 0 \<le> d_in t)
     \<and> (\<forall>v. in_degree g v + in_sum ds v + in_deg * ind vto v = Din v)
     \<and> (\<forall>v. out_degree g v + out_sum ds v = Dout v)
     \<and> sum_list (map d_out ds) = sum_list (map d_in ds) + in_deg"

lemma d_simps [simp]: "d_out (a, b, c) = a" "d_in (a, b, c) = b" "d_vn (a, b, c) = c"
  by (simp_all add: d_out_def d_in_def d_vn_def)

lemma dir_inner_step:
  assumes inv: "dir_inv Din Dout vto in_deg ds g" and j: "j < length ds"
    and vf: "d_vn (ds ! j) = vfrom" and pos: "in_deg \<noteq> 0" "d_out (ds ! j) \<noteq> 0"
  shows "dir_inv Din Dout vto (in_deg - 1)
           (ds[j := (d_out (ds ! j) - 1, d_in (ds ! j), d_vn (ds ! j))]) (insert_sg g vfrom vto)"
proof -
  let ?t = "(d_out (ds ! j) - 1, d_in (ds ! j), d_vn (ds ! j))"
  let ?ds = "ds[j := ?t]"
  from inv have w: "wf g" and d: "sw_directed g" and ne: "ds \<noteq> []" and i0: "0 \<le> in_deg"
    and nn: "\<forall>t \<in> set ds. 0 \<le> d_out t \<and> 0 \<le> d_in t"
    and Iq: "\<forall>v. in_degree g v + in_sum ds v + in_deg * ind vto v = Din v"
    and Oq: "\<forall>v. out_degree g v + out_sum ds v = Dout v"
    and S: "sum_list (map d_out ds) = sum_list (map d_in ds) + in_deg"
    by (simp_all add: dir_inv_def)
  have tj: "ds ! j \<in> set ds" using j by (rule nth_mem)
  with nn pos(2) have op: "0 < d_out (ds ! j)" "0 \<le> d_in (ds ! j)" by force+
  have nn': "\<forall>t \<in> set ?ds. 0 \<le> d_out t \<and> 0 \<le> d_in t"
  proof
    fix t assume "t \<in> set ?ds"
    then have "t = ?t \<or> t \<in> set ds" using set_update_subset_insert [of ds j ?t] by auto
    then show "0 \<le> d_out t \<and> 0 \<le> d_in t" using nn op by auto
  qed
  have ins: "in_sum ?ds v = in_sum ds v" for v
    unfolding in_sum_def by (simp add: sum_list_map_update [OF j])
  have os: "out_sum ?ds v = out_sum ds v - ind vfrom v" for v
    unfolding out_sum_def using vf by (simp add: sum_list_map_update [OF j] ind_def)
  have so: "sum_list (map d_out ?ds) = sum_list (map d_out ds) - 1"
    by (simp add: sum_list_map_update [OF j])
  have si: "sum_list (map d_in ?ds) = sum_list (map d_in ds)"
    by (simp add: sum_list_map_update [OF j])
  have "\<forall>v. in_degree (insert_sg g vfrom vto) v + in_sum ?ds v + (in_deg - 1) * ind vto v = Din v"
    using Iq by (simp add: in_degree_insert_sg [OF w d] ins algebra_simps)
  moreover have "\<forall>v. out_degree (insert_sg g vfrom vto) v + out_sum ?ds v = Dout v"
    using Oq by (simp add: out_degree_insert_sg [OF w d] os)
  moreover have "?ds \<noteq> []" using ne by simp
  moreover have "0 \<le> in_deg - 1" using i0 pos(1) by simp
  ultimately show ?thesis
    unfolding dir_inv_def using wf_insert_sg [OF w] d nn' so si S by simp
qed

lemma dir_inner_total:
  assumes "dir_inv Din Dout vto in_deg ds g" "j < length ds" "d_vn (ds ! j) = vfrom"
  shows "\<exists>in' ds' g'. dir_inner re vfrom vto j in_deg ds g = Some (in', ds', g')
    \<and> dir_inv Din Dout vto in' ds' g' \<and> length ds' = length ds \<and> map d_in ds' = map d_in ds"
  using assms
proof (induction "nat in_deg" arbitrary: in_deg ds g rule: less_induct)
  case less
  show ?case
  proof (cases "in_deg \<noteq> 0 \<and> d_out (ds ! j) \<noteq> 0")
    case False
    then have "dir_inner re vfrom vto j in_deg ds g = Some (in_deg, ds, g)"
      by (subst dir_inner.simps) auto
    with less.prems(1) show ?thesis by simp
  next
    case True
    let ?ds = "ds[j := (d_out (ds ! j) - 1, d_in (ds ! j), d_vn (ds ! j))]"
    let ?g = "insert_sg g vfrom vto"
    from True have pos: "in_deg \<noteq> 0" "d_out (ds ! j) \<noteq> 0" by simp_all
    have inv': "dir_inv Din Dout vto (in_deg - 1) ?ds ?g"
      using less.prems pos by (rule dir_inner_step)
    have len: "length ?ds = length ds" by simp
    have din: "map d_in ?ds = map d_in ds"
      using less.prems(2) by (simp add: map_update list_update_same_conv)
    show ?thesis
    proof (cases re)
      case False
      have "dir_inner re vfrom vto j in_deg ds g = Some (in_deg - 1, ?ds, ?g)"
        using True False by (subst dir_inner.simps) (simp add: Let_def)
      with inv' len din show ?thesis by blast
    next
      case re: True
      have e: "dir_inner re vfrom vto j in_deg ds g = dir_inner re vfrom vto j (in_deg - 1) ?ds ?g"
        using True re by (subst dir_inner.simps) (simp add: Let_def)
      from less.prems(1) have "0 \<le> in_deg" by (simp add: dir_inv_def)
      with pos(1) have m: "nat (in_deg - 1) < nat in_deg" by simp
      have j': "j < length ?ds" using less.prems(2) by simp
      have vf': "d_vn (?ds ! j) = vfrom" using less.prems(2,3) by simp
      from less.hyps [OF m inv' j' vf'] obtain in' ds' g' where
        r: "dir_inner re vfrom vto j (in_deg - 1) ?ds ?g = Some (in', ds', g')"
          "dir_inv Din Dout vto in' ds' g'" "length ds' = length ?ds" "map d_in ds' = map d_in ?ds"
        by blast
      with e len din show ?thesis by simp
    qed
  qed
qed

lemma dir_middle_total:
  assumes "dir_inv Din Dout vto in_deg ds g"
  shows "\<exists>r. dir_middle sl re vto j in_deg ds g = Some r
    \<and> (r = Inl IndexError
       \<or> (\<exists>ds' g'. r = Inr (ds', g') \<and> dir_inv Din Dout vto 0 ds' g'
             \<and> length ds' = length ds \<and> map d_in ds' = map d_in ds))"
  using assms
proof (induction "Suc (length ds) - j" arbitrary: j in_deg ds g rule: less_induct)
  case less
  show ?case
  proof (cases "in_deg = 0")
    case True
    then have "dir_middle sl re vto j in_deg ds g = Some (Inr (ds, g))"
      by (subst dir_middle.simps) simp
    with less.prems True show ?thesis by auto
  next
    case nz: False
    show ?thesis
    proof (cases "length ds \<le> j")
      case True
      then have "dir_middle sl re vto j in_deg ds g = Some (Inl IndexError)"
        using nz by (subst dir_middle.simps) simp
      then show ?thesis by simp
    next
      case False
      then have j: "j < length ds" by simp
      show ?thesis
      proof (cases "vto = d_vn (ds ! j) \<and> \<not> sl")
        case skip: True
        show ?thesis
        proof (cases "length ds \<le> j + 1")
          case True
          then have "dir_middle sl re vto j in_deg ds g = Some (Inl IndexError)"
            using nz j skip by (subst dir_middle.simps) simp
          then show ?thesis by simp
        next
          case False
          then have j1: "j + 1 < length ds" by simp
          from dir_inner_total [OF less.prems j1 refl, of re] obtain in' ds' g' where
            i: "dir_inner re (d_vn (ds ! (j + 1))) vto (j + 1) in_deg ds g = Some (in', ds', g')"
              "dir_inv Din Dout vto in' ds' g'" "length ds' = length ds"
              "map d_in ds' = map d_in ds" by blast
          have e: "dir_middle sl re vto j in_deg ds g = dir_middle sl re vto (j + 2) in' ds' g'"
            using nz j skip j1 i(1) by (subst dir_middle.simps) simp
          have "Suc (length ds') - (j + 2) < Suc (length ds) - j" using i(3) j by simp
          from less.hyps [OF this i(2)] obtain r where
            r: "dir_middle sl re vto (j + 2) in' ds' g' = Some r"
              "r = Inl IndexError
               \<or> (\<exists>ds'' g''. r = Inr (ds'', g'') \<and> dir_inv Din Dout vto 0 ds'' g''
                     \<and> length ds'' = length ds' \<and> map d_in ds'' = map d_in ds')" by blast
          with e i(3,4) show ?thesis by auto
        qed
      next
        case noskip: False
        from dir_inner_total [OF less.prems j refl, of re] obtain in' ds' g' where
          i: "dir_inner re (d_vn (ds ! j)) vto j in_deg ds g = Some (in', ds', g')"
            "dir_inv Din Dout vto in' ds' g'" "length ds' = length ds"
            "map d_in ds' = map d_in ds" by blast
        have e: "dir_middle sl re vto j in_deg ds g = dir_middle sl re vto (j + 1) in' ds' g'"
          using nz j noskip i(1) by (subst dir_middle.simps) auto
        have "Suc (length ds') - (j + 1) < Suc (length ds) - j" using i(3) j by simp
        from less.hyps [OF this i(2)] obtain r where
          r: "dir_middle sl re vto (j + 1) in' ds' g' = Some r"
            "r = Inl IndexError
             \<or> (\<exists>ds'' g''. r = Inr (ds'', g'') \<and> dir_inv Din Dout vto 0 ds'' g''
                   \<and> length ds'' = length ds' \<and> map d_in ds'' = map d_in ds')" by blast
        with e i(3,4) show ?thesis by auto
      qed
    qed
  qed
qed

lemma in_sum_sort_reverse [simp]: "in_sum (sort_reverse ds) v = in_sum ds v"
  by (simp add: in_sum_def sum_list_map_sort_reverse)

lemma out_sum_sort_reverse [simp]: "out_sum (sort_reverse ds) v = out_sum ds v"
  by (simp add: out_sum_def sum_list_map_sort_reverse)

lemma sort_reverse_eq_Nil [simp]: "sort_reverse ds = [] \<longleftrightarrow> ds = []"
  using length_sort_reverse [of ds] by (simp only: length_0_conv [symmetric])

lemma dir_inv_sort_reverse:
  "dir_inv Din Dout vto 0 ds g \<Longrightarrow> dir_inv Din Dout vto' 0 (sort_reverse ds) g"
  unfolding dir_inv_def
  by (simp add: sum_list_map_sort_reverse)

lemma count_pos_map:
  "length (filter (\<lambda>t. 0 < d_in t) ds) = length (filter (\<lambda>x. 0 < x) (map d_in ds))"
  by (simp add: filter_map comp_def)

lemma dir_inv_done:
  assumes inv: "dir_inv Din Dout vto 0 ds g" and z: "\<forall>t \<in> set ds. d_in t \<le> 0"
  shows "in_degree g v = Din v \<and> out_degree g v = Dout v"
proof -
  from inv have nn: "\<forall>t \<in> set ds. 0 \<le> d_out t \<and> 0 \<le> d_in t"
    and Iq: "in_degree g v + in_sum ds v = Din v"
    and Oq: "out_degree g v + out_sum ds v = Dout v"
    and S: "sum_list (map d_out ds) = sum_list (map d_in ds)"
    by (simp_all add: dir_inv_def)
  have i0: "\<forall>t \<in> set ds. d_in t = 0" using nn z by force
  then have "sum_list (map d_in ds) = 0" by (induction ds) simp_all
  with S have "sum_list (map d_out ds) = 0" by simp
  moreover have "\<And>x. x \<in> set (map d_out ds) \<Longrightarrow> 0 \<le> x" using nn by auto
  ultimately have "\<forall>x \<in> set (map d_out ds). x = 0"
    by (simp only: sum_list_nonneg_eq_0_iff)
  then have o0: "\<forall>t \<in> set ds. d_out t = 0" by simp
  have "in_sum ds v = 0" unfolding in_sum_def using i0 by (induction ds) simp_all
  moreover have "out_sum ds v = 0" unfolding out_sum_def using o0 by (induction ds) simp_all
  ultimately show ?thesis using Iq Oq by simp
qed

lemma dir_outer_total:
  assumes "dir_inv Din Dout vto0 0 ds g"
  shows "\<exists>r. dir_outer sl re ds g = Some r
    \<and> (r = Inl IndexError
       \<or> (\<exists>g'. r = Inr g' \<and> wf g' \<and> sw_directed g'
             \<and> (\<forall>v. in_degree g' v = Din v \<and> out_degree g' v = Dout v)))"
  using assms
proof (induction "length (filter (\<lambda>t. 0 < d_in t) ds)" arbitrary: ds g vto0 rule: less_induct)
  case less
  from less.prems have ne: "ds \<noteq> []" and w: "wf g" and d: "sw_directed g"
    by (simp_all add: dir_inv_def)
  show ?case
  proof (cases "0 < Max (set (map d_in ds))")
    case False
    have "finite (set (map d_in ds))" "set (map d_in ds) \<noteq> {}" using ne by simp_all
    with False have "\<forall>x \<in> set (map d_in ds). x \<le> 0"
      by (simp add: not_less)
    then have z: "\<forall>t \<in> set ds. d_in t \<le> 0" by simp
    have "dir_outer sl re ds g = Some (Inr g)"
      using ne False by (subst dir_outer.simps) simp
    with dir_inv_done [OF less.prems z] w d show ?thesis by auto
  next
    case True
    show ?thesis
    proof (cases "filter (\<lambda>i. 0 < d_in (ds ! i)) [0..<length ds]")
      case Nil
      then have "dir_outer sl re ds g = Some (Inl IndexError)"
        using ne True by (subst dir_outer.simps) simp
      then show ?thesis by simp
    next
      case (Cons k0 ks)
      then have "k0 \<in> set (filter (\<lambda>i. 0 < d_in (ds ! i)) [0..<length ds])" by simp
      then have k: "k0 < length ds" and p: "0 < d_in (ds ! k0)" by simp_all
      define in_deg where "in_deg = d_in (ds ! k0)"
      define vto where "vto = d_vn (ds ! k0)"
      define ds1 where "ds1 = ds[k0 := (d_out (ds ! k0), 0, vto)]"
      from less.prems have nn: "\<forall>t \<in> set ds. 0 \<le> d_out t \<and> 0 \<le> d_in t"
        and Iq: "\<forall>v. in_degree g v + in_sum ds v = Din v"
        and Oq: "\<forall>v. out_degree g v + out_sum ds v = Dout v"
        and S: "sum_list (map d_out ds) = sum_list (map d_in ds)"
        by (simp_all add: dir_inv_def)
      have tk: "ds ! k0 \<in> set ds" using k by (rule nth_mem)
      have nn1: "\<forall>t \<in> set ds1. 0 \<le> d_out t \<and> 0 \<le> d_in t"
      proof
        fix t assume "t \<in> set ds1"
        then have "t = (d_out (ds ! k0), 0, vto) \<or> t \<in> set ds"
          unfolding ds1_def using set_update_subset_insert [of ds k0] by auto
        then show "0 \<le> d_out t \<and> 0 \<le> d_in t" using nn tk by auto
      qed
      have is1: "in_sum ds1 v = in_sum ds v - in_deg * ind vto v" for v
        unfolding in_sum_def ds1_def in_deg_def vto_def
        by (simp add: sum_list_map_update [OF k] ind_def)
      have os1: "out_sum ds1 v = out_sum ds v" for v
        unfolding out_sum_def ds1_def vto_def by (simp add: sum_list_map_update [OF k])
      have so1: "sum_list (map d_out ds1) = sum_list (map d_out ds)"
        unfolding ds1_def by (simp add: sum_list_map_update [OF k])
      have si1: "sum_list (map d_in ds1) = sum_list (map d_in ds) - in_deg"
        unfolding ds1_def in_deg_def by (simp add: sum_list_map_update [OF k])
      have inv1: "dir_inv Din Dout vto in_deg ds1 g"
        unfolding dir_inv_def using w d ne nn1 Iq Oq S p
        by (simp add: is1 os1 so1 si1 in_deg_def [symmetric]) (simp add: ds1_def)
      from dir_middle_total [OF inv1, of sl re 0] obtain r where
        r: "dir_middle sl re vto 0 in_deg ds1 g = Some r"
          "r = Inl IndexError
           \<or> (\<exists>ds' g'. r = Inr (ds', g') \<and> dir_inv Din Dout vto 0 ds' g'
                 \<and> length ds' = length ds1 \<and> map d_in ds' = map d_in ds1)" by blast
      have unf: "dir_outer sl re ds g =
          Option.bind (dir_middle sl re vto 0 in_deg ds1 g)
            (\<lambda>r. case r of Inl e \<Rightarrow> Some (Inl e)
                  | Inr (degseq2, ret2) \<Rightarrow> dir_outer sl re (sort_reverse degseq2) ret2)"
        using ne True Cons
        by (subst dir_outer.simps) (simp add: Let_def in_deg_def vto_def ds1_def)
      from r(2) show ?thesis
      proof
        assume "r = Inl IndexError"
        with unf r(1) show ?thesis by simp
      next
        assume "\<exists>ds' g'. r = Inr (ds', g') \<and> dir_inv Din Dout vto 0 ds' g'
                 \<and> length ds' = length ds1 \<and> map d_in ds' = map d_in ds1"
        then obtain ds2 g2 where
          r2: "r = Inr (ds2, g2)" "dir_inv Din Dout vto 0 ds2 g2" "map d_in ds2 = map d_in ds1"
          by blast
        have e: "dir_outer sl re ds g = dir_outer sl re (sort_reverse ds2) g2"
          using unf r(1) r2(1) by simp
        have "length (filter (\<lambda>t. 0 < d_in t) (sort_reverse ds2))
            = length (filter (\<lambda>t. 0 < d_in t) ds2)"
          by (rule count_sort_reverse)
        also have "\<dots> = length (filter (\<lambda>t. 0 < d_in t) ds1)"
          unfolding count_pos_map r2(3) ..
        also have "\<dots> < length (filter (\<lambda>t. 0 < d_in t) ds)"
          unfolding ds1_def using k p by (intro count_update_less) simp_all
        finally have m: "length (filter (\<lambda>t. 0 < d_in t) (sort_reverse ds2))
            < length (filter (\<lambda>t. 0 < d_in t) ds)" .
        from less.hyps [OF m dir_inv_sort_reverse [OF r2(2)]] e show ?thesis by simp
      qed
    qed
  qed
qed

lemma enumerate1_snoc:
  "enumerate1 (xs @ [x]) = enumerate1 xs @ [(int (length xs) + 1, x)]"
  by (simp add: enumerate1_def)

lemma map_snd_enumerate1 [simp]: "map snd (enumerate1 xs) = xs"
  by (simp add: enumerate1_def)

lemma length_enumerate1 [simp]: "length (enumerate1 xs) = length xs"
  by (simp add: enumerate1_def)

lemma map_snd_comp_enumerate1: "map (\<lambda>p. h (snd p)) (enumerate1 xs) = map h xs"
proof -
  have "map (\<lambda>p. h (snd p)) (enumerate1 xs) = map h (map snd (enumerate1 xs))"
    by (simp only: map_map comp_def)
  then show ?thesis by simp
qed

lemma enumerate1_eq_Nil [simp]: "enumerate1 xs = [] \<longleftrightarrow> xs = []"
  using length_enumerate1 [of xs] by (simp only: length_0_conv [symmetric])

lemma sum_list_all_zero:
  fixes f :: "'a \<Rightarrow> int"
  shows "\<forall>p \<in> set ps. f p = 0 \<Longrightarrow> sum_list (map f ps) = 0"
  by (induction ps) simp_all

lemma fst_enumerate1_le: "p \<in> set (enumerate1 xs) \<Longrightarrow> fst p \<le> int (length xs)"
proof -
  assume "p \<in> set (enumerate1 xs)"
  then have "(fst p, snd p) \<in> set (zip (map (\<lambda>i. int i + 1) [0..<length xs]) xs)"
    by (simp add: enumerate1_def)
  then have "fst p \<in> set (map (\<lambda>i. int i + 1) [0..<length xs])" by (rule set_zip_leftD)
  then show ?thesis by auto
qed

lemma sum_enumerate1:
  fixes h :: "'a \<Rightarrow> int"
  shows "i < length xs \<Longrightarrow>
    sum_list (map (\<lambda>p. if fst p = int i + 1 then h (snd p) else 0) (enumerate1 xs)) = h (xs ! i)"
proof (induction xs rule: rev_induct)
  case Nil
  then show ?case by simp
next
  case (snoc x xs)
  show ?case
  proof (cases "i < length xs")
    case True
    with snoc.IH show ?thesis by (simp add: enumerate1_snoc nth_append)
  next
    case False
    with snoc.prems have i: "i = length xs" by simp
    have "sum_list (map (\<lambda>p. if fst p = int (length xs) + 1 then h (snd p) else 0) (enumerate1 xs)) = 0"
      by (rule sum_list_all_zero) (auto dest: fst_enumerate1_le)
    then show ?thesis by (simp add: enumerate1_snoc i)
  qed
qed

lemma empty_graph:
  "wf (SwitchGraph_init [] d)" "sw_directed (SwitchGraph_init [] d) = d"
  "in_degree (SwitchGraph_init [] d) v = 0" "out_degree (SwitchGraph_init [] d) v = 0"
  by (simp_all add: SwitchGraph_init_def wf_def in_degree_def out_degree_def get_edges_def
      elements_def)

text \<open>
  The directed realization returns on every input, fails only with the non-graphical
  error, and what it returns has the degrees of the input, read as \<open>(in, out)\<close> pairs.
\<close>

lemma from_directed_total:
  "(list_ex (\<lambda>(x, y). x < 0 \<or> y < 0) D \<or> sum_list (map fst D) \<noteq> sum_list (map snd D) \<longrightarrow>
      from_directed_degree_sequence D self_loop repeated_edges = Some (Inl not_graphical))
   \<and> (D \<noteq> [] \<and> \<not> list_ex (\<lambda>(x, y). x < 0 \<or> y < 0) D
        \<and> sum_list (map fst D) = sum_list (map snd D) \<longrightarrow>
      from_directed_degree_sequence D self_loop repeated_edges = Some (Inl not_graphical)
      \<or> (\<exists>g. from_directed_degree_sequence D self_loop repeated_edges = Some (Inr g)
            \<and> wf g \<and> sw_directed g
            \<and> (\<forall>i < length D. in_degree g (int i + 1) = fst (D ! i)
                               \<and> out_degree g (int i + 1) = snd (D ! i))))"
proof (intro conjI impI)
  assume "list_ex (\<lambda>(x, y). x < 0 \<or> y < 0) D \<or> sum_list (map fst D) \<noteq> sum_list (map snd D)"
  then show "from_directed_degree_sequence D self_loop repeated_edges = Some (Inl not_graphical)"
    by (auto simp: from_directed_degree_sequence_def)
next
  assume a: "D \<noteq> [] \<and> \<not> list_ex (\<lambda>(x, y). x < 0 \<or> y < 0) D
        \<and> sum_list (map fst D) = sum_list (map snd D)"
  let ?F = "\<lambda>(vn, (sin, sout)). (sout, sin, vn) :: dentry"
  let ?raw = "map ?F (enumerate1 D)"
  let ?ds = "sort_reverse ?raw"
  let ?g0 = "SwitchGraph_init [] True"
  define Din where "Din = in_sum ?ds"
  define Dout where "Dout = out_sum ?ds"
  have nn: "\<forall>p \<in> set D. 0 \<le> fst p \<and> 0 \<le> snd p"
    using a by (auto simp: list_ex_iff not_less)
  have min: "map d_in ?raw = map fst D"
  proof -
    have "map d_in ?raw = map (\<lambda>p. fst (snd p)) (enumerate1 D)"
      by (simp add: case_prod_beta)
    then show ?thesis by (simp only: map_snd_comp_enumerate1)
  qed
  have mout: "map d_out ?raw = map snd D"
  proof -
    have "map d_out ?raw = map (\<lambda>p. snd (snd p)) (enumerate1 D)"
      by (simp add: case_prod_beta)
    then show ?thesis by (simp only: map_snd_comp_enumerate1)
  qed
  have nn': "\<forall>t \<in> set ?ds. 0 \<le> d_out t \<and> 0 \<le> d_in t"
  proof
    fix t assume "t \<in> set ?ds"
    then have t: "t \<in> set ?raw" by simp
    then have "d_in t \<in> d_in ` set ?raw" "d_out t \<in> d_out ` set ?raw" by blast+
    then have "d_in t \<in> set (map d_in ?raw)" "d_out t \<in> set (map d_out ?raw)"
      by (simp_all only: set_map)
    then have "d_in t \<in> fst ` set D" "d_out t \<in> snd ` set D"
      unfolding min mout by (simp_all only: set_map)
    with nn show "0 \<le> d_out t \<and> 0 \<le> d_in t" by auto
  qed
  have S: "sum_list (map d_out ?ds) = sum_list (map d_in ?ds)"
    unfolding sum_list_map_sort_reverse min mout using a by simp
  have inv: "dir_inv Din Dout 0 0 ?ds ?g0"
    unfolding dir_inv_def Din_def Dout_def using a nn' S by (simp add: empty_graph)
  from dir_outer_total [OF inv, of self_loop repeated_edges] obtain r where
    r: "dir_outer self_loop repeated_edges ?ds ?g0 = Some r"
      "r = Inl IndexError
       \<or> (\<exists>g'. r = Inr g' \<and> wf g' \<and> sw_directed g'
             \<and> (\<forall>v. in_degree g' v = Din v \<and> out_degree g' v = Dout v))" by blast
  have unf: "from_directed_degree_sequence D self_loop repeated_edges
      = Some (index_error_not_graphical r)"
    using a r(1) by (simp add: from_directed_degree_sequence_def Let_def)
  have Din_i: "Din (int i + 1) = fst (D ! i)" if "i < length D" for i
  proof -
    have "Din (int i + 1) = in_sum ?raw (int i + 1)"
      unfolding Din_def by (rule in_sum_sort_reverse)
    also have "\<dots>
        = sum_list (map (\<lambda>p. if fst p = int i + 1 then fst (snd p) else 0) (enumerate1 D))"
      unfolding in_sum_def by (simp add: comp_def case_prod_beta cong: if_cong)
    finally show ?thesis using sum_enumerate1 [OF that, of fst] by simp
  qed
  have Dout_i: "Dout (int i + 1) = snd (D ! i)" if "i < length D" for i
  proof -
    have "Dout (int i + 1) = out_sum ?raw (int i + 1)"
      unfolding Dout_def by (rule out_sum_sort_reverse)
    also have "\<dots>
        = sum_list (map (\<lambda>p. if fst p = int i + 1 then snd (snd p) else 0) (enumerate1 D))"
      unfolding out_sum_def by (simp add: comp_def case_prod_beta cong: if_cong)
    finally show ?thesis using sum_enumerate1 [OF that, of snd] by simp
  qed
  from r(2) show "from_directed_degree_sequence D self_loop repeated_edges = Some (Inl not_graphical)
      \<or> (\<exists>g. from_directed_degree_sequence D self_loop repeated_edges = Some (Inr g)
            \<and> wf g \<and> sw_directed g
            \<and> (\<forall>i < length D. in_degree g (int i + 1) = fst (D ! i)
                               \<and> out_degree g (int i + 1) = snd (D ! i)))"
  proof
    assume "r = Inl IndexError"
    then show ?thesis using unf by (simp add: index_error_not_graphical_def)
  next
    assume "\<exists>g'. r = Inr g' \<and> wf g' \<and> sw_directed g'
             \<and> (\<forall>v. in_degree g' v = Din v \<and> out_degree g' v = Dout v)"
    then obtain g' where g': "r = Inr g'" "wf g'" "sw_directed g'"
      "\<forall>v. in_degree g' v = Din v \<and> out_degree g' v = Dout v" by blast
    have "from_directed_degree_sequence D self_loop repeated_edges = Some (Inr g')"
      using unf g'(1) by (simp add: index_error_not_graphical_def)
    then show ?thesis using g'(2-4) Din_i Dout_i by auto
  qed
qed





section \<open>Undirected realization and sequences of switches\<close>

text \<open>
  What is left of the demand of a vertex in the working list, and the degree of a
  vertex in a list of edges (a self-loop counts twice).
\<close>

definition deg_sum :: "uentry list \<Rightarrow> vertex \<Rightarrow> int" where
  "deg_sum ds v = sum_list (map (\<lambda>t. if snd t = v then fst t else 0) ds)"

definition ldeg :: "key list \<Rightarrow> vertex \<Rightarrow> int" where
  "ldeg es v = sum_list (map (\<lambda>e. ind (fst e) v + ind (snd e) v) es)"

text \<open>
  The invariant of the undirected realization: the edges made so far, the demands left
  in the list and the demand \<open>deg\<close> held for the current vertex \<open>x\<close> add up to the input.
\<close>

definition und_inv ::
  "int \<Rightarrow> (vertex \<Rightarrow> int) \<Rightarrow> vertex \<Rightarrow> int \<Rightarrow> uentry list \<Rightarrow> key list \<Rightarrow> bool" where
  "und_inv S D0 x deg ds es \<longleftrightarrow>
     ds \<noteq> [] \<and> 0 \<le> deg \<and> (\<forall>t \<in> set ds. 0 \<le> fst t)
     \<and> (\<forall>v. ldeg es v + deg_sum ds v + deg * ind x v = D0 v)
     \<and> 2 * int (length es) + sum_list (map fst ds) + deg = S"

lemma ldeg_snoc: "ldeg (es @ [(a, b)]) v = ldeg es v + ind a v + ind b v"
  by (simp add: ldeg_def)

lemma und_self_loops_inv:
  "und_inv S D0 x deg ds es \<Longrightarrow> und_inv S D0 x (fst (und_self_loops re x deg es)) ds
     (snd (und_self_loops re x deg es))"
proof (induction re x deg es rule: und_self_loops.induct)
  case (1 re x deg es)
  show ?case
  proof (cases "1 < deg")
    case False
    with 1 show ?thesis by simp
  next
    case True
    have step: "und_inv S D0 x (deg - 2) ds (es @ [(x, x)])"
      using "1.prems" True unfolding und_inv_def
      by (simp add: ldeg_snoc algebra_simps)
    show ?thesis
    proof (cases re)
      case False
      with True step show ?thesis by simp
    next
      case re: True
      from "1.IH" [OF True _ step] re have
        "und_inv S D0 x (fst (und_self_loops re x (deg - 2) (es @ [(x, x)]))) ds
           (snd (und_self_loops re x (deg - 2) (es @ [(x, x)])))" by simp
      then show ?thesis using True re by (subst (1 2) und_self_loops.simps) simp
    qed
  qed
qed

lemma und_inner_step:
  assumes inv: "und_inv S D0 x deg ds es" and y: "y < length ds"
    and pos: "deg \<noteq> 0" "fst (ds ! y) \<noteq> 0"
  shows "und_inv S D0 x (deg - 1) (ds[y := (fst (ds ! y) - 1, snd (ds ! y))])
           (es @ [(x, snd (ds ! y))])"
    and "sum_list (map fst (ds[y := (fst (ds ! y) - 1, snd (ds ! y))])) \<le> sum_list (map fst ds)"
proof -
  let ?t = "(fst (ds ! y) - 1, snd (ds ! y))"
  let ?ds = "ds[y := ?t]"
  from inv have ne: "ds \<noteq> []" and d0: "0 \<le> deg" and nn: "\<forall>t \<in> set ds. 0 \<le> fst t"
    and Dq: "\<forall>v. ldeg es v + deg_sum ds v + deg * ind x v = D0 v"
    and Sq: "2 * int (length es) + sum_list (map fst ds) + deg = S"
    by (simp_all add: und_inv_def)
  have ty: "ds ! y \<in> set ds" using y by (rule nth_mem)
  with nn pos(2) have fp: "0 < fst (ds ! y)" by force
  have nn': "\<forall>t \<in> set ?ds. 0 \<le> fst t"
  proof
    fix t assume "t \<in> set ?ds"
    then have "t = ?t \<or> t \<in> set ds" using set_update_subset_insert [of ds y ?t] by auto
    then show "0 \<le> fst t" using nn fp by auto
  qed
  have dsum: "deg_sum ?ds v = deg_sum ds v - ind (snd (ds ! y)) v" for v
    unfolding deg_sum_def by (simp add: sum_list_map_update [OF y] ind_def)
  have fsum: "sum_list (map fst ?ds) = sum_list (map fst ds) - 1"
    by (simp add: sum_list_map_update [OF y])
  then show "sum_list (map fst ?ds) \<le> sum_list (map fst ds)" by simp
  have "\<forall>v. ldeg (es @ [(x, snd (ds ! y))]) v + deg_sum ?ds v + (deg - 1) * ind x v = D0 v"
    using Dq by (simp add: ldeg_snoc dsum algebra_simps)
  moreover have "2 * int (length (es @ [(x, snd (ds ! y))])) + sum_list (map fst ?ds) + (deg - 1) = S"
    using Sq fsum by simp
  moreover have "?ds \<noteq> []" using ne by simp
  moreover have "0 \<le> deg - 1" using d0 pos(1) by simp
  ultimately show "und_inv S D0 x (deg - 1) ?ds (es @ [(x, snd (ds ! y))])"
    unfolding und_inv_def using nn' by blast
qed

lemma und_inner_total:
  assumes "und_inv S D0 x deg ds es"
  shows "\<exists>r. und_inner re x y deg ds es = Some r
    \<and> (r = Inl IndexError
       \<or> (\<exists>deg' ds' es'. r = Inr (deg', ds', es') \<and> und_inv S D0 x deg' ds' es'
             \<and> length ds' = length ds
             \<and> sum_list (map fst ds') \<le> sum_list (map fst ds)))"
  using assms
proof (induction "nat deg" arbitrary: deg ds es rule: less_induct)
  case less
  show ?case
  proof (cases "deg = 0")
    case True
    then have "und_inner re x y deg ds es = Some (Inr (deg, ds, es))"
      by (subst und_inner.simps) simp
    with less.prems show ?thesis by simp
  next
    case nz: False
    show ?thesis
    proof (cases "length ds \<le> y")
      case True
      then have "und_inner re x y deg ds es = Some (Inl IndexError)"
        using nz by (subst und_inner.simps) simp
      then show ?thesis by simp
    next
      case False
      then have y: "y < length ds" by simp
      show ?thesis
      proof (cases "fst (ds ! y) = 0")
        case True
        then have "und_inner re x y deg ds es = Some (Inr (deg, ds, es))"
          using nz y by (subst und_inner.simps) simp
        with less.prems show ?thesis by simp
      next
        case fz: False
        let ?ds = "ds[y := (fst (ds ! y) - 1, snd (ds ! y))]"
        let ?es = "es @ [(x, snd (ds ! y))]"
        have inv': "und_inv S D0 x (deg - 1) ?ds ?es"
          and le: "sum_list (map fst ?ds) \<le> sum_list (map fst ds)"
          using und_inner_step [OF less.prems y nz fz] by simp_all
        have sy: "snd (?ds ! y) = snd (ds ! y)" using y by simp
        show ?thesis
        proof (cases re)
          case False
          have "und_inner re x y deg ds es = Some (Inr (deg - 1, ?ds, ?es))"
            using nz y fz False sy by (subst und_inner.simps) (simp add: Let_def)
          with inv' le show ?thesis by simp
        next
          case re: True
          have e: "und_inner re x y deg ds es = und_inner re x y (deg - 1) ?ds ?es"
            using nz y fz re sy by (subst und_inner.simps) (simp add: Let_def)
          from less.prems have "0 \<le> deg" by (simp add: und_inv_def)
          with nz have m: "nat (deg - 1) < nat deg" by simp
          from less.hyps [OF m inv'] obtain r where
            r: "und_inner re x y (deg - 1) ?ds ?es = Some r"
              "r = Inl IndexError
               \<or> (\<exists>deg' ds' es'. r = Inr (deg', ds', es') \<and> und_inv S D0 x deg' ds' es'
                     \<and> length ds' = length ?ds
                     \<and> sum_list (map fst ds') \<le> sum_list (map fst ?ds))" by blast
          from r(2) show ?thesis
          proof
            assume "r = Inl IndexError"
            with e r(1) show ?thesis by simp
          next
            assume "\<exists>deg' ds' es'. r = Inr (deg', ds', es') \<and> und_inv S D0 x deg' ds' es'
                     \<and> length ds' = length ?ds
                     \<and> sum_list (map fst ds') \<le> sum_list (map fst ?ds)"
            then obtain deg' ds' es' where
              h: "r = Inr (deg', ds', es')" "und_inv S D0 x deg' ds' es'"
                "length ds' = length ?ds" "sum_list (map fst ds') \<le> sum_list (map fst ?ds)"
              by blast
            from h(3) have "length ds' = length ds" by simp
            moreover from h(4) le have "sum_list (map fst ds') \<le> sum_list (map fst ds)" by simp
            ultimately show ?thesis using e r(1) h(1,2) by simp
          qed
        qed
      qed
    qed
  qed
qed

lemma und_middle_total:
  assumes "und_inv S D0 x deg ds es"
  shows "\<exists>r. und_middle re x y deg ds es = Some r
    \<and> (r = Inl IndexError
       \<or> (\<exists>ds' es'. r = Inr (ds', es') \<and> und_inv S D0 x 0 ds' es'
             \<and> length ds' = length ds
             \<and> sum_list (map fst ds') \<le> sum_list (map fst ds)))"
  using assms
proof (induction "Suc (length ds) - y" arbitrary: y deg ds es rule: less_induct)
  case less
  show ?case
  proof (cases "deg = 0")
    case True
    then have "und_middle re x y deg ds es = Some (Inr (ds, es))"
      by (subst und_middle.simps) simp
    with less.prems True show ?thesis by simp
  next
    case nz: False
    from und_inner_total [OF less.prems, of re y] obtain r where
      r: "und_inner re x y deg ds es = Some r"
        "r = Inl IndexError
         \<or> (\<exists>deg' ds' es'. r = Inr (deg', ds', es') \<and> und_inv S D0 x deg' ds' es'
               \<and> length ds' = length ds
               \<and> sum_list (map fst ds') \<le> sum_list (map fst ds))" by blast
    from r(2) show ?thesis
    proof
      assume "r = Inl IndexError"
      then have "und_middle re x y deg ds es = Some (Inl IndexError)"
        using nz r(1) by (subst und_middle.simps) simp
      then show ?thesis by simp
    next
      assume "\<exists>deg' ds' es'. r = Inr (deg', ds', es') \<and> und_inv S D0 x deg' ds' es'
               \<and> length ds' = length ds
               \<and> sum_list (map fst ds') \<le> sum_list (map fst ds)"
      then obtain deg' ds' es' where
        h: "r = Inr (deg', ds', es')" "und_inv S D0 x deg' ds' es'"
          "length ds' = length ds" "sum_list (map fst ds') \<le> sum_list (map fst ds)" by blast
      have e: "und_middle re x y deg ds es = und_middle re x (y + 1) deg' ds' es'"
        using nz r(1) h(1) by (subst und_middle.simps) simp
      have yl: "y < length ds"
      proof (rule ccontr)
        assume "\<not> y < length ds"
        then have "und_inner re x y deg ds es = Some (Inl IndexError)"
          using nz by (subst und_inner.simps) simp
        with r(1) h(1) show False by simp
      qed
      have "Suc (length ds') - (y + 1) < Suc (length ds) - y" using h(3) yl by simp
      from less.hyps [OF this h(2)] obtain r' where
        r': "und_middle re x (y + 1) deg' ds' es' = Some r'"
          "r' = Inl IndexError
           \<or> (\<exists>ds'' es''. r' = Inr (ds'', es'') \<and> und_inv S D0 x 0 ds'' es''
                 \<and> length ds'' = length ds'
                 \<and> sum_list (map fst ds'') \<le> sum_list (map fst ds'))" by blast
      from r'(2) show ?thesis
      proof
        assume "r' = Inl IndexError"
        with e r'(1) show ?thesis by simp
      next
        assume "\<exists>ds'' es''. r' = Inr (ds'', es'') \<and> und_inv S D0 x 0 ds'' es''
                 \<and> length ds'' = length ds'
                 \<and> sum_list (map fst ds'') \<le> sum_list (map fst ds')"
        then obtain ds'' es'' where
          k: "r' = Inr (ds'', es'')" "und_inv S D0 x 0 ds'' es''" "length ds'' = length ds'"
            "sum_list (map fst ds'') \<le> sum_list (map fst ds')" by blast
        from k(3) h(3) have "length ds'' = length ds" by simp
        moreover from k(4) h(4) have "sum_list (map fst ds'') \<le> sum_list (map fst ds)" by simp
        ultimately show ?thesis using e r'(1) k(1,2) by simp
      qed
    qed
  qed
qed

lemma hd_sort_reverse_max:
  fixes xs :: "'a::linorder list"
  assumes "t \<in> set xs"
  shows "t \<le> hd (sort_reverse xs)"
proof -
  have ts: "t \<in> set (sort xs)" using assms by simp
  have ne: "sort xs \<noteq> []"
  proof
    assume "sort xs = []"
    then have "length (sort xs) = 0" by (simp only: list.size)
    then have "xs = []" by simp
    with assms show False by simp
  qed
  from ts have "\<exists>i < length (sort xs). sort xs ! i = t" by (simp only: in_set_conv_nth)
  then obtain i where i: "i < length (sort xs)" "sort xs ! i = t" by blast
  have "sort xs ! i \<le> sort xs ! (length (sort xs) - 1)"
    using i(1) by (intro sorted_nth_mono) simp_all
  then have "t \<le> last (sort xs)" using i(2) ne by (simp add: last_conv_nth)
  then show ?thesis by (simp add: sort_reverse_def hd_rev)
qed

lemma fst_hd_sort_reverse_max:
  fixes xs :: "uentry list"
  assumes "t \<in> set xs"
  shows "fst t \<le> fst (hd (sort_reverse xs))"
  using hd_sort_reverse_max [OF assms] by (auto simp: less_eq_prod_def)

lemma deg_sum_sort_reverse [simp]: "deg_sum (sort_reverse ds) v = deg_sum ds v"
  by (simp add: deg_sum_def sum_list_map_sort_reverse)

lemma und_inv_sort_reverse:
  "und_inv S D0 x 0 ds es \<Longrightarrow> und_inv S D0 x' 0 (sort_reverse ds) es"
  unfolding und_inv_def by (simp add: sum_list_map_sort_reverse)

lemma sum_list_pos_ex:
  fixes xs :: "int list"
  shows "0 < sum_list xs \<Longrightarrow> \<exists>x \<in> set xs. 0 < x"
proof (rule ccontr)
  assume p: "0 < sum_list xs" and "\<not> (\<exists>x \<in> set xs. 0 < x)"
  then have "\<forall>x \<in> set xs. x \<le> 0" by (auto simp: not_less)
  then have "sum_list xs \<le> 0" by (induction xs) auto
  with p show False by simp
qed

lemma und_inv_done:
  assumes inv: "und_inv S D0 x 0 ds es" and z: "S \<le> 2 * int (length es)"
  shows "ldeg es v = D0 v"
proof -
  from inv have nn: "\<forall>t \<in> set ds. 0 \<le> fst t"
    and Dq: "ldeg es v + deg_sum ds v = D0 v"
    and Sq: "2 * int (length es) + sum_list (map fst ds) = S"
    by (simp_all add: und_inv_def)
  have "0 \<le> sum_list (map fst ds)" using nn by (intro sum_list_nonneg) auto
  with Sq z have "sum_list (map fst ds) = 0" by simp
  moreover have "\<And>a. a \<in> set (map fst ds) \<Longrightarrow> 0 \<le> a" using nn by auto
  ultimately have "\<forall>a \<in> set (map fst ds). a = 0" by (simp only: sum_list_nonneg_eq_0_iff)
  then have "\<forall>t \<in> set ds. fst t = 0" by simp
  then have "deg_sum ds v = 0" unfolding deg_sum_def by (induction ds) simp_all
  with Dq show ?thesis by simp
qed

lemma und_outer_total:
  assumes "und_inv (sum_list U) D0 x0 0 ds es" "\<forall>t \<in> set ds. fst t \<le> fst (hd ds)"
  shows "\<exists>r. und_outer sl re U ds es = Some r
    \<and> (r = Inl IndexError \<or> (\<exists>es'. r = Inr es' \<and> (\<forall>v. ldeg es' v = D0 v)))"
  using assms
proof (induction "nat (sum_list (map fst ds))" arbitrary: ds es x0 rule: less_induct)
  case less
  show ?case
  proof (cases "int (length es) * 2 < sum_list U")
    case False
    then have "und_outer sl re U ds es = Some (Inr es)"
      by (subst und_outer.simps) simp
    moreover have "sum_list U \<le> 2 * int (length es)" using False by simp
    ultimately show ?thesis using und_inv_done [OF less.prems(1)] by simp
  next
    case True
    from less.prems(1) have ne: "ds \<noteq> []" and nn: "\<forall>t \<in> set ds. 0 \<le> fst t"
      and Dq: "\<forall>v. ldeg es v + deg_sum ds v = D0 v"
      and Sq: "2 * int (length es) + sum_list (map fst ds) = sum_list U"
      by (simp_all add: und_inv_def)
    from ne obtain first rest where ds: "ds = first # rest" by (cases ds) auto
    define deg where "deg = fst first"
    define x where "x = snd first"
    define ds1 where "ds1 = ds[0 := (0 :: int, x)]"
    define sl1 where "sl1 = (if sl then und_self_loops re x deg es else (deg, es))"
    have "0 < sum_list (map fst ds)" using True Sq by simp
    then obtain a where "a \<in> set (map fst ds)" "0 < a" using sum_list_pos_ex by blast
    then obtain t where "t \<in> set ds" "0 < fst t" by auto
    with less.prems(2) have dp: "0 < deg" unfolding deg_def ds by force
    have k: "0 < length ds" using ne by simp
    have f0: "ds ! 0 = first" by (simp add: ds)
    have nn1: "\<forall>t \<in> set ds1. 0 \<le> fst t"
    proof
      fix t assume "t \<in> set ds1"
      then have "t = (0, x) \<or> t \<in> set ds"
        unfolding ds1_def using set_update_subset_insert [of ds 0] by auto
      then show "0 \<le> fst t" using nn by auto
    qed
    have dsum1: "deg_sum ds1 v = deg_sum ds v - deg * ind x v" for v
      unfolding deg_sum_def ds1_def
      by (simp add: sum_list_map_update [OF k] f0 deg_def x_def ind_def)
    have fsum1: "sum_list (map fst ds1) = sum_list (map fst ds) - deg"
      unfolding ds1_def by (simp add: sum_list_map_update [OF k] f0 deg_def)
    have inv1: "und_inv (sum_list U) D0 x deg ds1 es"
      unfolding und_inv_def using nn1 Dq Sq dp
      by (simp add: dsum1 fsum1) (simp add: ds1_def ne)
    have inv2: "und_inv (sum_list U) D0 x (fst sl1) ds1 (snd sl1)"
      unfolding sl1_def using inv1 und_self_loops_inv [OF inv1, of re] by simp
    from und_middle_total [OF inv2, of re 1] obtain r where
      r: "und_middle re x 1 (fst sl1) ds1 (snd sl1) = Some r"
        "r = Inl IndexError
         \<or> (\<exists>ds' es'. r = Inr (ds', es') \<and> und_inv (sum_list U) D0 x 0 ds' es'
               \<and> length ds' = length ds1
               \<and> sum_list (map fst ds') \<le> sum_list (map fst ds1))" by blast
    have unf: "und_outer sl re U ds es =
        Option.bind (und_middle re x 1 (fst sl1) ds1 (snd sl1))
          (\<lambda>r. case r of Inl e \<Rightarrow> Some (Inl e)
                | Inr (degseq2, edges2) \<Rightarrow> und_outer sl re U (sort_reverse degseq2) edges2)"
      using True
      by (subst und_outer.simps) (simp add: ds Let_def deg_def x_def ds1_def sl1_def)
    from r(2) show ?thesis
    proof
      assume "r = Inl IndexError"
      with unf r(1) show ?thesis by simp
    next
      assume "\<exists>ds' es'. r = Inr (ds', es') \<and> und_inv (sum_list U) D0 x 0 ds' es'
               \<and> length ds' = length ds1
               \<and> sum_list (map fst ds') \<le> sum_list (map fst ds1)"
      then obtain ds2 es2 where
        h: "r = Inr (ds2, es2)" "und_inv (sum_list U) D0 x 0 ds2 es2"
          "sum_list (map fst ds2) \<le> sum_list (map fst ds1)" by blast
      have e: "und_outer sl re U ds es = und_outer sl re U (sort_reverse ds2) es2"
        using unf r(1) h(1) by simp
      have "sum_list (map fst (sort_reverse ds2)) < sum_list (map fst ds)"
        using h(3) fsum1 dp by (simp add: sum_list_map_sort_reverse)
      moreover have "0 < sum_list (map fst ds)" by fact
      ultimately have m: "nat (sum_list (map fst (sort_reverse ds2))) < nat (sum_list (map fst ds))"
        by simp
      have srt: "\<forall>t \<in> set (sort_reverse ds2). fst t \<le> fst (hd (sort_reverse ds2))"
        using fst_hd_sort_reverse_max [of _ ds2] by simp
      from less.hyps [OF m und_inv_sort_reverse [OF h(2)] srt] e show ?thesis by simp
    qed
  qed
qed

lemma SwitchGraph_init_fold:
  assumes "wf g" "\<not> sw_directed g"
  shows "wf (fold (\<lambda>e g. insert_sg g (fst e) (snd e)) es g)
    \<and> \<not> sw_directed (fold (\<lambda>e g. insert_sg g (fst e) (snd e)) es g)
    \<and> (\<forall>v. degree (fold (\<lambda>e g. insert_sg g (fst e) (snd e)) es g) v = degree g v + ldeg es v)"
  using assms
proof (induction es arbitrary: g)
  case Nil
  then show ?case by (simp add: ldeg_def)
next
  case (Cons e es)
  have w: "wf (insert_sg g (fst e) (snd e))" using Cons.prems(1) by (rule wf_insert_sg)
  have d: "\<not> sw_directed (insert_sg g (fst e) (snd e))" using Cons.prems(2) by simp
  from Cons.IH [OF w d] show ?case
    by (simp add: degree_insert_sg [OF Cons.prems] ldeg_def)
qed

lemma SwitchGraph_init_undirected:
  "wf (SwitchGraph_init es False)" "\<not> sw_directed (SwitchGraph_init es False)"
  "degree (SwitchGraph_init es False) v = ldeg es v"
proof -
  let ?g0 = "\<lparr>sw_directed = False, sw_edges = []\<rparr>"
  have w: "wf ?g0" by (simp add: wf_def)
  have d: "\<not> sw_directed ?g0" by simp
  have z: "degree ?g0 v = 0"
    by (simp add: degree_def in_degree_def out_degree_def get_edges_def elements_def)
  from SwitchGraph_init_fold [OF w d, of es] z
  show "wf (SwitchGraph_init es False)" "\<not> sw_directed (SwitchGraph_init es False)"
    "degree (SwitchGraph_init es False) v = ldeg es v"
    unfolding SwitchGraph_init_def by simp_all
qed

lemma from_undirected_degree_sequence_realizes:
  assumes "from_undirected_degree_sequence U self_loop repeated_edges = Some (Inr g)"
  shows "wf g \<and> \<not> sw_directed g \<and> (\<forall>i < length U. degree g (int i + 1) = U ! i)"
proof (cases "U = []")
  case True
  with assms have "g = SwitchGraph_init [] False"
    by (simp add: from_undirected_degree_sequence_def)
  then show ?thesis using True SwitchGraph_init_undirected(1,2) [of "[]"] by simp
next
  case ne: False
  from assms have v: "\<not> list_ex (\<lambda>x. x < 0) U" "sum_list U mod 2 = 0"
    by (auto simp: from_undirected_degree_sequence_def split: if_splits)
  let ?raw = "map (\<lambda>(i, deg). (deg, i)) (enumerate1 U)"
  let ?ds = "sort_reverse ?raw"
  define D0 where "D0 = deg_sum ?ds"
  have mf: "map fst ?raw = U"
  proof -
    have "fst \<circ> (\<lambda>(i, deg). (deg, i)) = (snd :: int \<times> int \<Rightarrow> int)"
      by (auto simp: fun_eq_iff)
    then show ?thesis by simp
  qed
  have nn: "\<forall>t \<in> set ?ds. 0 \<le> fst t"
  proof
    fix t assume "t \<in> set ?ds"
    then have "fst t \<in> fst ` set ?raw" by simp
    then have "fst t \<in> set (map fst ?raw)" by (simp only: set_map)
    then have "fst t \<in> set U" unfolding mf .
    with v(1) show "0 \<le> fst t" by (auto simp: list_ex_iff not_less)
  qed
  have Sq: "sum_list (map fst ?ds) = sum_list U"
    unfolding sum_list_map_sort_reverse mf ..
  have inv: "und_inv (sum_list U) D0 0 0 ?ds []"
    unfolding und_inv_def D0_def using ne nn Sq by (simp add: ldeg_def)
  have srt: "\<forall>t \<in> set ?ds. fst t \<le> fst (hd ?ds)"
    using fst_hd_sort_reverse_max [of _ ?raw] by simp
  from und_outer_total [OF inv srt, of self_loop repeated_edges] obtain r where
    r: "und_outer self_loop repeated_edges U ?ds [] = Some r"
      "r = Inl IndexError \<or> (\<exists>es'. r = Inr es' \<and> (\<forall>v. ldeg es' v = D0 v))" by blast
  have unf: "from_undirected_degree_sequence U self_loop repeated_edges
      = Some (then_e (index_error_not_graphical r) (\<lambda>edges. Inr (SwitchGraph_init edges False)))"
    using ne v r(1) by (simp add: from_undirected_degree_sequence_def Let_def)
  from r(2) assms unf obtain es where es: "r = Inr es" "\<forall>v. ldeg es v = D0 v"
    by (auto simp: index_error_not_graphical_def then_e_def not_graphical_def)
  from unf assms es(1) have g: "g = SwitchGraph_init es False"
    by (simp add: index_error_not_graphical_def then_e_def)
  have D0_i: "D0 (int i + 1) = U ! i" if "i < length U" for i
  proof -
    have "D0 (int i + 1) = deg_sum ?raw (int i + 1)"
      unfolding D0_def by (rule deg_sum_sort_reverse)
    also have "\<dots> = sum_list (map (\<lambda>p. if fst p = int i + 1 then snd p else 0) (enumerate1 U))"
      unfolding deg_sum_def by (simp add: comp_def case_prod_beta cong: if_cong)
    finally show ?thesis using sum_enumerate1 [OF that, of "\<lambda>a. a"] by simp
  qed
  show ?thesis unfolding g using SwitchGraph_init_undirected [of es] es(2) D0_i by simp
qed

text \<open>
  The multiset after a sequence of calls of \<open>switch\<close>, each with its own flags and
  draws; a call that raises leaves the object as it was.
\<close>

fun switches :: "SwitchGraph \<Rightarrow> (bool \<times> bool \<times> nat \<times> nat) list \<Rightarrow> SwitchGraph" where
  "switches g [] = g"
| "switches g ((self_loop, repeated_edges, r1, r2) # calls) =
     (case switch g self_loop repeated_edges r1 r2 of
        Inl e \<Rightarrow> switches g calls
      | Inr (b, g') \<Rightarrow> switches g' calls)"

lemma switches_keep:
  "wf g \<Longrightarrow>
   wf (switches g calls) \<and> sw_directed (switches g calls) = sw_directed g
   \<and> (sw_directed g \<longrightarrow> (\<forall>v. out_degree (switches g calls) v = out_degree g v
                              \<and> in_degree (switches g calls) v = in_degree g v))
   \<and> (\<not> sw_directed g \<longrightarrow> (\<forall>v. degree (switches g calls) v = degree g v))"
proof (induction calls arbitrary: g)
  case Nil
  then show ?case by simp
next
  case (Cons c calls)
  obtain sl re r1 r2 where c: "c = (sl, re, r1, r2)" by (cases c) auto
  show ?case
  proof (cases "switch g sl re r1 r2")
    case (Inl e)
    then have "switches g (c # calls) = switches g calls" by (simp add: c)
    with Cons.IH [OF Cons.prems] show ?thesis by simp
  next
    case (Inr p)
    obtain b g' where p: "p = (b, g')" by (cases p)
    with Inr have s: "switch g sl re r1 r2 = Inr (b, g')" by simp
    have e: "switches g (c # calls) = switches g' calls" using s by (simp add: c)
    have w: "wf g'" using Cons.prems s by (rule switch_wf)
    have d: "sw_directed g' = sw_directed g" using s by (rule switch_directed)
    from Cons.IH [OF w] d switch_degrees [OF Cons.prems s] show ?thesis
      unfolding e by simp
  qed
qed

lemma from_directed_Inr:
  assumes "from_directed_degree_sequence D sl re = Some (Inr g)"
  shows "wf g \<and> sw_directed g
    \<and> (\<forall>i < length D. in_degree g (int i + 1) = fst (D ! i)
                       \<and> out_degree g (int i + 1) = snd (D ! i))"
proof -
  have v: "D \<noteq> [] \<and> \<not> list_ex (\<lambda>(x, y). x < 0 \<or> y < 0) D
      \<and> sum_list (map fst D) = sum_list (map snd D)"
    using assms by (auto simp: from_directed_degree_sequence_def split: if_splits)
  from from_directed_total [of D sl re] v assms show ?thesis
    by (auto simp: not_graphical_def)
qed

lemma in_get_edges:
  assumes "wf g" "0 < cnt g k" "sw_directed g \<or> fst k \<le> snd k"
  shows "k \<in> set (get_edges g)"
proof -
  from assms(2) obtain n where n: "map_of (sw_edges g) k = Some n" "0 < n"
    by (auto simp: cnt_def count_def split: option.splits)
  from n(1) have "(k, n) \<in> set (sw_edges g)" by (rule map_of_SomeD)
  with assms(3) have "(k, n) \<in> set (filter (\<lambda>(k, n). sw_directed g \<or> fst k \<le> snd k) (sw_edges g))"
    by simp
  with n(2) have "k \<in> set (elements (filter (\<lambda>(k, n). sw_directed g \<or> fst k \<le> snd k) (sw_edges g)))"
    unfolding set_elements by blast
  then show ?thesis by (simp add: get_edges_def)
qed

lemma drawn_in_get_edges:
  assumes "wf g" "choices (sw_edges g) r = Inr k"
  shows "drawn g k \<in> set (get_edges g)"
proof -
  have "0 < cnt g (drawn g k)" using assms(1) choices_pos [OF assms] by (rule drawn_pos)
  moreover have "sw_directed g \<or> fst (drawn g k) \<le> snd (drawn g k)"
    using drawn_sorted [of g k] by blast
  ultimately show ?thesis using assms(1) by (intro in_get_edges) simp_all
qed

lemma switch_accepted_draws:
  assumes "switch g sl re r1 r2 = Inr (True, g')"
  shows "\<exists>first second.
      choices (sw_edges g) r1 = Inr first \<and> choices (sw_edges g) r2 = Inr second
      \<and> g' = swap4 g (fst (drawn g first)) (snd (drawn g first))
                      (fst (drawn g second)) (snd (drawn g second))
      \<and> drawn g first \<noteq> drawn g second"
proof -
  from assms obtain first second where f: "choices (sw_edges g) r1 = Inr first"
    and s: "choices (sw_edges g) r2 = Inr second"
    unfolding switch_unfold by (auto split: sum.splits)
  define x1 where "x1 = fst (drawn g first)"
  define y1 where "y1 = snd (drawn g first)"
  define x2 where "x2 = fst (drawn g second)"
  define y2 where "y2 = snd (drawn g second)"
  from assms have g': "g' = swap4 g x1 y1 x2 y2"
    and c: "if sl then \<not> (x1 = x2 \<or> y1 = y2) else {x1, y1} \<inter> {x2, y2} = {}"
    unfolding switch_unfold f s x1_def y1_def x2_def y2_def Let_def
    by (auto split: if_splits)
  have "x1 \<noteq> x2 \<or> y1 \<noteq> y2" using c by (cases sl) auto
  then have "drawn g first \<noteq> drawn g second"
    unfolding x1_def y1_def x2_def y2_def by auto
  with f s g' show ?thesis unfolding x1_def y1_def x2_def y2_def by blast
qed

text \<open>
  C1.  A graph built from a degree sequence keeps that sequence under every sequence of
  calls of \<open>switch\<close>, whatever the flags and the draws: in the directed case vertex
  \<open>i + 1\<close> keeps the in-degree and the out-degree of the \<open>i\<close>-th pair, read as the code
  reads it (in-degree first), in the undirected case it keeps the \<open>i\<close>-th degree.  One
  call on a well-formed multiset, whatever it returns, changes no vertex's degree.  An
  accepted switch has drawn two keys \<open>first\<close> and \<open>second\<close>; with \<open>(x1, y1)\<close> and \<open>(x2, y2)\<close>
  the two drawn edges (the keys themselves when directed, sorted when undirected), which
  are different edges, and edges of a well-formed multiset, the result is the multiset
  after \<open>remove(x1, y1)\<close>, \<open>insert(x1, y2)\<close>, \<open>remove(x2, y2)\<close>, \<open>insert(x2, y1)\<close>.
\<close>

theorem switch_keeps_degree_sequence:
  "(from_directed_degree_sequence D self_loop0 repeated_edges0 = Some (Inr g) \<longrightarrow>
      (\<forall>i < length D. in_degree (switches g calls) (int i + 1) = fst (D ! i)
                       \<and> out_degree (switches g calls) (int i + 1) = snd (D ! i)))
   \<and> (from_undirected_degree_sequence U self_loop0 repeated_edges0 = Some (Inr g) \<longrightarrow>
      (\<forall>i < length U. degree (switches g calls) (int i + 1) = U ! i))
   \<and> (wf g \<and> switch g self_loop repeated_edges r1 r2 = Inr (b, g') \<longrightarrow>
      (\<forall>v. (sw_directed g \<longrightarrow> in_degree g' v = in_degree g v
                                  \<and> out_degree g' v = out_degree g v)
          \<and> (\<not> sw_directed g \<longrightarrow> degree g' v = degree g v)))
   \<and> (switch g self_loop repeated_edges r1 r2 = Inr (True, g') \<longrightarrow>
      (\<exists>first second.
         choices (sw_edges g) r1 = Inr first \<and> choices (sw_edges g) r2 = Inr second
         \<and> (let (x1, y1) = (if sw_directed g then first else sorted_pair first);
                (x2, y2) = (if sw_directed g then second else sorted_pair second)
            in g' = insert_sg (remove_sg (insert_sg (remove_sg g x1 y1) x1 y2) x2 y2) x2 y1
               \<and> (x1, y1) \<noteq> (x2, y2)
               \<and> (wf g \<longrightarrow> (x1, y1) \<in> set (get_edges g)
                            \<and> (x2, y2) \<in> set (get_edges g)))))"
proof (intro conjI impI)
  assume "from_directed_degree_sequence D self_loop0 repeated_edges0 = Some (Inr g)"
  from from_directed_Inr [OF this] switches_keep [of g calls]
  show "\<forall>i < length D. in_degree (switches g calls) (int i + 1) = fst (D ! i)
                       \<and> out_degree (switches g calls) (int i + 1) = snd (D ! i)"
    by simp
next
  assume "from_undirected_degree_sequence U self_loop0 repeated_edges0 = Some (Inr g)"
  from from_undirected_degree_sequence_realizes [OF this] switches_keep [of g calls]
  show "\<forall>i < length U. degree (switches g calls) (int i + 1) = U ! i" by simp
next
  assume a: "wf g \<and> switch g self_loop repeated_edges r1 r2 = Inr (b, g')"
  then have w: "wf g" and s: "switch g self_loop repeated_edges r1 r2 = Inr (b, g')"
    by simp_all
  show "\<forall>v. (sw_directed g \<longrightarrow> in_degree g' v = in_degree g v
                                  \<and> out_degree g' v = out_degree g v)
          \<and> (\<not> sw_directed g \<longrightarrow> degree g' v = degree g v)"
    using switch_degrees [OF w s] by blast
next
  assume s: "switch g self_loop repeated_edges r1 r2 = Inr (True, g')"
  from switch_accepted_draws [OF s] obtain first second where
    f: "choices (sw_edges g) r1 = Inr first" and n: "choices (sw_edges g) r2 = Inr second"
    and g': "g' = swap4 g (fst (drawn g first)) (snd (drawn g first))
                         (fst (drawn g second)) (snd (drawn g second))"
    and d: "drawn g first \<noteq> drawn g second" by blast
  have e: "wf g \<longrightarrow> drawn g first \<in> set (get_edges g) \<and> drawn g second \<in> set (get_edges g)"
    using drawn_in_get_edges [OF _ f] drawn_in_get_edges [OF _ n] by blast
  have "let (x1, y1) = (if sw_directed g then first else sorted_pair first);
            (x2, y2) = (if sw_directed g then second else sorted_pair second)
        in g' = insert_sg (remove_sg (insert_sg (remove_sg g x1 y1) x1 y2) x2 y2) x2 y1
           \<and> (x1, y1) \<noteq> (x2, y2)
           \<and> (wf g \<longrightarrow> (x1, y1) \<in> set (get_edges g) \<and> (x2, y2) \<in> set (get_edges g))"
    using g' d e unfolding swap4_def drawn_def Let_def
    by (cases "sw_directed g") (auto simp: split_beta prod_eq_iff)
  with f n show "\<exists>first second.
         choices (sw_edges g) r1 = Inr first \<and> choices (sw_edges g) r2 = Inr second
         \<and> (let (x1, y1) = (if sw_directed g then first else sorted_pair first);
                (x2, y2) = (if sw_directed g then second else sorted_pair second)
            in g' = insert_sg (remove_sg (insert_sg (remove_sg g x1 y1) x1 y2) x2 y2) x2 y1
               \<and> (x1, y1) \<noteq> (x2, y2)
               \<and> (wf g \<longrightarrow> (x1, y1) \<in> set (get_edges g)
                            \<and> (x2, y2) \<in> set (get_edges g)))"
    by blast
qed

theorem switch_keeps_degree_sequence_witness:
  "(\<exists>g. from_directed_degree_sequence [(1, 0), (0, 1), (0, 1), (1, 0)] False False = Some (Inr g)
       \<and> switches g [(False, False, 0, 1), (True, True, 0, 0)]
           = \<lparr>sw_directed = True, sw_edges = [((3, 1), 1), ((2, 4), 1)]\<rparr>
       \<and> in_degree (switches g [(False, False, 0, 1), (True, True, 0, 0)]) 1 = 1
       \<and> out_degree (switches g [(False, False, 0, 1), (True, True, 0, 0)]) 1 = 0
       \<and> in_degree (switches g [(False, False, 0, 1), (True, True, 0, 0)]) 2 = 0
       \<and> out_degree (switches g [(False, False, 0, 1), (True, True, 0, 0)]) 2 = 1)
   \<and> (\<exists>g. from_undirected_degree_sequence [1, 1, 1, 1] False False = Some (Inr g)
       \<and> degree (switches g [(False, False, 0, 2), (False, False, 0, 0)]) 1 = 1
       \<and> degree (switches g [(False, False, 0, 2), (False, False, 0, 0)]) 3 = 1)
   \<and> wf \<lparr>sw_directed = False,
            sw_edges = [((4, 3), 1), ((3, 4), 1), ((2, 1), 1), ((1, 2), 1)]\<rparr>
   \<and> switch \<lparr>sw_directed = False,
                sw_edges = [((4, 3), 1), ((3, 4), 1), ((2, 1), 1), ((1, 2), 1)]\<rparr>
          False False 0 2
        = Inr (True, \<lparr>sw_directed = False,
                       sw_edges = [((3, 2), 1), ((2, 3), 1), ((1, 4), 1), ((4, 1), 1)]\<rparr>)
   \<and> degree \<lparr>sw_directed = False,
                sw_edges = [((3, 2), 1), ((2, 3), 1), ((1, 4), 1), ((4, 1), 1)]\<rparr> 3
        = degree \<lparr>sw_directed = False,
                   sw_edges = [((4, 3), 1), ((3, 4), 1), ((2, 1), 1), ((1, 2), 1)]\<rparr> 3
   \<and> choices [((4, 3), 1), ((3, 4), 1), ((2, 1), 1), ((1, 2), 1)] 0 = Inr (4, 3)
   \<and> choices [((4, 3), 1), ((3, 4), 1), ((2, 1), 1), ((1, 2), 1)] 2 = Inr (2, 1)
   \<and> \<lparr>sw_directed = False,
        sw_edges = [((3, 2), 1), ((2, 3), 1), ((1, 4), 1), ((4, 1), 1)]\<rparr>
        = insert_sg (remove_sg (insert_sg (remove_sg
            \<lparr>sw_directed = False,
               sw_edges = [((4, 3), 1), ((3, 4), 1), ((2, 1), 1), ((1, 2), 1)]\<rparr>
            3 4) 3 2) 1 2) 1 4
   \<and> (3, 4) \<in> set (get_edges \<lparr>sw_directed = False,
            sw_edges = [((4, 3), 1), ((3, 4), 1), ((2, 1), 1), ((1, 2), 1)]\<rparr>)
   \<and> (1, 2) \<in> set (get_edges \<lparr>sw_directed = False,
            sw_edges = [((4, 3), 1), ((3, 4), 1), ((2, 1), 1), ((1, 2), 1)]\<rparr>)"
proof -
  let ?D = "[(1, 0), (0, 1), (0, 1), (1, 0)] :: (int \<times> int) list"
  let ?gD = "\<lparr>sw_directed = True, sw_edges = [((3, 4), 1), ((2, 1), 1)]\<rparr>"
  let ?cD = "[(False, False, 0, 1), (True, True, 0, 0)] :: (bool \<times> bool \<times> nat \<times> nat) list"
  let ?U = "[1, 1, 1, 1] :: int list"
  let ?gU = "\<lparr>sw_directed = False,
               sw_edges = [((4, 3), 1), ((3, 4), 1), ((2, 1), 1), ((1, 2), 1)]\<rparr>"
  let ?cU = "[(False, False, 0, 2), (False, False, 0, 0)] :: (bool \<times> bool \<times> nat \<times> nat) list"
  let ?g' = "\<lparr>sw_directed = False,
               sw_edges = [((3, 2), 1), ((2, 3), 1), ((1, 4), 1), ((4, 1), 1)]\<rparr>"
  have d: "from_directed_degree_sequence ?D False False = Some (Inr ?gD)" by code_simp
  have sd: "switches ?gD ?cD = \<lparr>sw_directed = True, sw_edges = [((3, 1), 1), ((2, 4), 1)]\<rparr>"
    by code_simp
  have u: "from_undirected_degree_sequence ?U False False = Some (Inr ?gU)" by code_simp
  have s: "switch ?gU False False 0 2 = Inr (True, ?g')" by code_simp
  have w: "wf ?gU" by code_simp
  have c1: "choices (sw_edges ?gU) 0 = Inr (4, 3)" by code_simp
  have c2: "choices (sw_edges ?gU) 2 = Inr (2, 1)" by code_simp
  from switch_keeps_degree_sequence [where D = ?D and g = ?gD and calls = ?cD
      and ?self_loop0.0 = False and ?repeated_edges0.0 = False] d
  have dd: "\<forall>i < length ?D. in_degree (switches ?gD ?cD) (int i + 1) = fst (?D ! i)
      \<and> out_degree (switches ?gD ?cD) (int i + 1) = snd (?D ! i)" by blast
  have d1: "in_degree (switches ?gD ?cD) 1 = 1 \<and> out_degree (switches ?gD ?cD) 1 = 0"
    using dd [rule_format, of 0] by simp
  have d2: "in_degree (switches ?gD ?cD) 2 = 0 \<and> out_degree (switches ?gD ?cD) 2 = 1"
    using dd [rule_format, of 1] by simp
  from switch_keeps_degree_sequence [where U = ?U and g = ?gU and calls = ?cU
      and ?self_loop0.0 = False and ?repeated_edges0.0 = False] u
  have uu: "\<forall>i < length ?U. degree (switches ?gU ?cU) (int i + 1) = ?U ! i" by blast
  have u1: "degree (switches ?gU ?cU) 1 = 1" using uu [rule_format, of 0] by simp
  have u3: "degree (switches ?gU ?cU) 3 = 1" using uu [rule_format, of 2] by simp
  from switch_keeps_degree_sequence [where g = ?gU and g' = ?g' and b = True
      and self_loop = False and repeated_edges = False and ?r1.0 = 0 and ?r2.0 = 2] w s
  have k: "\<forall>v. (sw_directed ?gU \<longrightarrow> in_degree ?g' v = in_degree ?gU v
                                     \<and> out_degree ?g' v = out_degree ?gU v)
             \<and> (\<not> sw_directed ?gU \<longrightarrow> degree ?g' v = degree ?gU v)" by blast
  have k3: "degree ?g' 3 = degree ?gU 3" using k [rule_format, of 3] by simp
  note T = switch_keeps_degree_sequence [where g = ?gU and g' = ?g' and self_loop = False
      and repeated_edges = False and ?r1.0 = 0 and ?r2.0 = 2]
  have ex: "\<exists>first second.
      choices (sw_edges ?gU) 0 = Inr first \<and> choices (sw_edges ?gU) 2 = Inr second
      \<and> (let (x1, y1) = (if sw_directed ?gU then first else sorted_pair first);
             (x2, y2) = (if sw_directed ?gU then second else sorted_pair second)
         in ?g' = insert_sg (remove_sg (insert_sg (remove_sg ?gU x1 y1) x1 y2) x2 y2) x2 y1
            \<and> (x1, y1) \<noteq> (x2, y2)
            \<and> (wf ?gU \<longrightarrow> (x1, y1) \<in> set (get_edges ?gU)
                           \<and> (x2, y2) \<in> set (get_edges ?gU)))"
    by (rule T [THEN conjunct2, THEN conjunct2, THEN conjunct2, THEN mp, OF s])
  have sh: "?g' = insert_sg (remove_sg (insert_sg (remove_sg ?gU 3 4) 3 2) 1 2) 1 4
      \<and> (3, 4) \<in> set (get_edges ?gU) \<and> (1, 2) \<in> set (get_edges ?gU)"
    using ex w unfolding c1 c2 by (simp add: sorted_pair_def)
  from d sd d1 d2 have A: "\<exists>g. from_directed_degree_sequence ?D False False = Some (Inr g)
       \<and> switches g ?cD = \<lparr>sw_directed = True, sw_edges = [((3, 1), 1), ((2, 4), 1)]\<rparr>
       \<and> in_degree (switches g ?cD) 1 = 1 \<and> out_degree (switches g ?cD) 1 = 0
       \<and> in_degree (switches g ?cD) 2 = 0 \<and> out_degree (switches g ?cD) 2 = 1" by blast
  from u u1 u3 have B: "\<exists>g. from_undirected_degree_sequence ?U False False = Some (Inr g)
       \<and> degree (switches g ?cU) 1 = 1 \<and> degree (switches g ?cU) 3 = 1" by blast
  from c1 c2 have C: "choices [((4, 3), 1), ((3, 4), 1), ((2, 1), 1), ((1, 2), 1)] 0 = Inr (4, 3)"
    "choices [((4, 3), 1), ((3, 4), 1), ((2, 1), 1), ((1, 2), 1)] 2 = Inr (2, 1)" by simp_all
  from A B w s k3 C sh show ?thesis by blast
qed

end
